theory Spec2Isabelle
  imports Main "HOL-Library.Word" "HOL-Library.Monad_Syntax"
begin

unbundle bit_operations_syntax

section \<open>Machine types\<close>

text \<open>
  Sequence numbers are \<open>uint16_t\<close>, the ack bitmap is \<open>uint32_t\<close>, resend budgets and
  the statistics counters are \<open>size_t\<close> (taken as 64 bits wide). Arithmetic on them wraps
  around, as the C++ unsigned types do. A \<open>system_clock::time_point\<close> is read as a
  whole number of milliseconds.
\<close>

type_synonym u8 = "8 word"
type_synonym u16 = "16 word"
type_synonym u32 = "32 word"
type_synonym size_t = "64 word"
type_synonym time_point = int

section \<open>Circular sequence arithmetic and the ack field\<close>

text \<open>
  Modelled from the spec: \<open>moreRecentSeqNum\<close> is called by
  \<open>Connection::processPeerAcks\<close> but defined in a header that is not part of the
  sources. The spec (4.B): a is circular-greater than b iff
  \<open>(a - b) mod 2^16 < 2^15\<close> and \<open>a \<noteq> b\<close>.
\<close>

definition moreRecentSeqNum :: "u16 \<Rightarrow> u16 \<Rightarrow> bool" where
  "moreRecentSeqNum a b \<longleftrightarrow> unat (a - b) < 2 ^ 15 \<and> a \<noteq> b"

text \<open>
  Modelled from the spec: the class behind \<open>Connection::ack_type\<close> (the member
  \<open>m_ack\<close> and the header field \<open>header.ack\<close>) is not part of the sources. The spec
  (3, 4.B): \<open>AckField = (latest: u16, bits: u32)\<close>, bit i of \<open>bits\<close> stands for seqnum
  \<open>latest - (i + 1)\<close>.
\<close>

record AckField =
  latest :: u16
  bits :: u32

text \<open>
  Modelled from the spec: "set bit \<open>d - 1\<close>" and "set bit \<open>(latest - s) - 1\<close>" of
  the 32-bit bitmap. For \<open>s = latest\<close> the spec's position is -1. The spec does not say
  what setting that position means; a bitmap has the bits 0..31 only, and here a
  position outside them sets nothing. No statement proved below depends on this case.
\<close>

definition setAckBit :: "int \<Rightarrow> u32 \<Rightarrow> u32" where
  "setAckBit i w = (if 0 \<le> i \<and> i < 32 then set_bit (nat i) w else w)"

text \<open>
  Modelled from the spec (4.B): \<open>updateForSeqNum(s)\<close>: if s is circular-greater than
  \<open>latest\<close>: shift \<open>bits\<close> left by \<open>d = (s - latest) mod 2^16\<close>; if \<open>d \<le> 32\<close>
  set bit \<open>d - 1\<close> (the old \<open>latest\<close>); then \<open>latest\<close> becomes s. Else if
  \<open>(latest - s) mod 2^16 \<le> 32\<close>: set bit \<open>(latest - s) - 1\<close>. Else: ignore.
  A shift of a 32-bit bitmap by 32 or more leaves no bit set.
\<close>

definition updateForSeqNum :: "u16 \<Rightarrow> AckField \<Rightarrow> AckField" where
  "updateForSeqNum s a =
     (if moreRecentSeqNum s (latest a) then
        (let d = unat (s - latest a);
             shifted = push_bit d (bits a)
         in \<lparr> latest = s,
              bits = (if d \<le> 32 then setAckBit (int d - 1) shifted else shifted) \<rparr>)
      else if unat (latest a - s) \<le> 32 then
        a \<lparr> bits := setAckBit (int (unat (latest a - s)) - 1) (bits a) \<rparr>
      else a)"

text \<open>
  Modelled from the spec (4.B): \<open>forEachAckedSeqNum(f)\<close> invokes \<open>f(latest)\<close>, then
  for each set bit i invokes \<open>f(latest - (i + 1))\<close>. \<open>ackedSeqNums\<close> is the list of
  the arguments in the order of the calls.
\<close>

definition ackedSeqNums :: "AckField \<Rightarrow> u16 list" where
  "ackedSeqNums a =
     latest a # map (\<lambda>i. latest a - of_nat (i + 1)) (filter (\<lambda>i. bit (bits a) i) [0..<32])"

section \<open>The smoothed round-trip estimate\<close>

text \<open>
  \<open>Connection::confirmPacketDelivery\<close>:
  \<open>m_averageRTT = (9 * m_averageRTT + static_cast<size_t>(observedRTT.count())) / 10\<close>;
  the constructor sets \<open>m_averageRTT(50)\<close>.

  Modelled from the spec: the declaration of \<open>m_averageRTT\<close> is not part of the sources
  (\<open>connection.h\<close> does not declare it). The spec (3): \<open>avgRTT: u32 ms\<close>. With a 32-bit
  unsigned member the product \<open>9 * m_averageRTT\<close> is computed in 32 bits and wraps
  around there, the sum with the \<open>size_t\<close> observation and the division are computed in
  \<open>size_t\<close>, and the assignment keeps the low 32 bits.
\<close>

definition rttUpdate :: "u32 \<Rightarrow> size_t \<Rightarrow> u32" where
  "rttUpdate averageRTT observed = ucast ((ucast (9 * averageRTT) + observed) div 10)"

definition initialRTT :: u32 where
  "initialRTT = 50"

text \<open>The estimate after the observations \<open>obs\<close>, fed in order from the initial value.\<close>

definition rttAfter :: "size_t list \<Rightarrow> u32" where
  "rttAfter obs = foldl rttUpdate initialRTT obs"

section \<open>Packets\<close>

text \<open>
  \<open>core/packet.h\<close> is not part of the sources. \<open>connection.cpp\<close> reads
  \<open>header().protocol\<close>, \<open>header().seqNum\<close> and \<open>header().ack\<close> (an
  \<open>ack_type\<close>: the peer's latest seqnum and its bitmap) and sends \<open>buffer()\<close>; the
  payload is a sequence of bytes. A \<open>PacketPtr\<close> is modelled by the value it points to,
  an unset one by \<open>None\<close>. The code shares the object between the sent buffer, the
  posted jobs and the completion handlers, and \<open>store\<close> stamps it in place; the value
  model agrees with that as long as no packet object is held in two places at once, as
  when every send of the application is a packet of its own (\<open>netbase_client.cpp\<close>
  makes a new one per tick). The section on shared packet objects below models the
  pointers themselves.
\<close>

record PacketHeader =
  protocol :: u32
  seqNum :: u16
  ack :: AckField

record Packet =
  header :: PacketHeader
  payload :: "u8 list"

text \<open>
  \<open>Connection::PacketExt\<close> (\<open>connection.h\<close>). The default constructor leaves the
  packet pointer unset; its definition is not part of the sources, and the other two
  fields of an unset entry are taken as 0.
\<close>

record PacketExt =
  packet :: "Packet option"
  resendLimit :: size_t
  timestamp :: time_point

definition emptyExt :: PacketExt where
  "emptyExt = \<lparr> packet = None, resendLimit = 0, timestamp = 0 \<rparr>"

section \<open>The sent buffer\<close>

text \<open>
  Modelled from the spec: the class of \<open>Connection::m_sentPackets\<close> is not part of the
  sources. The spec (4.C): a fixed-capacity ring of N = 256 entries;
  \<^item> \<open>store\<close> assigns \<open>seqNum = nextSeqNum++\<close>, stamps the packet's header with it and
    with the current local ack, writes slot \<open>seqNum mod N\<close> and returns the prior
    occupant (an entry whose packet is unset when the slot was free, as
    \<open>Connection::doSend\<close> tests it); the stamped packet is returned too, since the
    code reads it through the shared pointer afterwards; the entry's timestamp is the
    time of the call;
  \<^item> \<open>contains(s)\<close>: slot \<open>s mod N\<close> is occupied and its seqnum equals s;
  \<^item> \<open>release(s)\<close>, precondition \<open>contains(s)\<close>: clears the slot and returns the
    entry (\<open>None\<close> where the precondition fails);
  \<^item> \<open>oldestSeqNum\<close> is the seqnum with minimal circular position among the occupied
    slots, \<open>oldestTime\<close> the smallest timestamp among them (\<open>None\<close> on an empty
    buffer, where the code never calls them);
  \<^item> \<open>empty\<close>: no slot is occupied.
  The first seqnum assigned is 0 (scenario 1 of the spec).
\<close>

definition sentCapacity :: nat where
  "sentCapacity = 256"

record SentBuffer =
  slots :: "PacketExt list"
  nextSeqNum :: u16

definition newSentBuffer :: SentBuffer where
  "newSentBuffer = \<lparr> slots = replicate sentCapacity emptyExt, nextSeqNum = 0 \<rparr>"

definition store ::
  "time_point \<Rightarrow> Packet \<Rightarrow> size_t \<Rightarrow> AckField \<Rightarrow> SentBuffer \<Rightarrow> PacketExt \<times> Packet \<times> SentBuffer"
where
  "store now p resend a buf =
     (let s = nextSeqNum buf;
          i = unat s mod sentCapacity;
          stamped = p \<lparr> header := (header p) \<lparr> seqNum := s, ack := a \<rparr> \<rparr>;
          old = slots buf ! i
      in (old, stamped,
          buf \<lparr> slots := (slots buf)
                   [i := \<lparr> packet = Some stamped, resendLimit = resend, timestamp = now \<rparr>],
                nextSeqNum := s + 1 \<rparr>))"

definition contains :: "u16 \<Rightarrow> SentBuffer \<Rightarrow> bool" where
  "contains s buf =
     (case packet (slots buf ! (unat s mod sentCapacity)) of
        None \<Rightarrow> False
      | Some p \<Rightarrow> seqNum (header p) = s)"

definition release :: "u16 \<Rightarrow> SentBuffer \<Rightarrow> (PacketExt \<times> SentBuffer) option" where
  "release s buf =
     (if contains s buf then
        (let i = unat s mod sentCapacity
         in Some (slots buf ! i, buf \<lparr> slots := (slots buf)[i := emptyExt] \<rparr>))
      else None)"

definition sent_empty :: "SentBuffer \<Rightarrow> bool" where
  "sent_empty buf = list_all (\<lambda>e. packet e = None) (slots buf)"

text \<open>
  The oldest of a non-empty list of seqnums: one scan that keeps a candidate and replaces
  it by any seqnum the candidate is more recent than.
\<close>

fun oldestOf :: "u16 \<Rightarrow> u16 list \<Rightarrow> u16" where
  "oldestOf c [] = c"
| "oldestOf c (s # ss) = oldestOf (if moreRecentSeqNum c s then s else c) ss"

definition sentSeqNums :: "SentBuffer \<Rightarrow> u16 list" where
  "sentSeqNums buf =
     concat (map (\<lambda>e. case packet e of None \<Rightarrow> [] | Some p \<Rightarrow> [seqNum (header p)]) (slots buf))"

definition sentTimes :: "SentBuffer \<Rightarrow> time_point list" where
  "sentTimes buf = map timestamp (filter (\<lambda>e. packet e \<noteq> None) (slots buf))"

definition oldestSeqNum :: "SentBuffer \<Rightarrow> u16 option" where
  "oldestSeqNum buf = (case sentSeqNums buf of [] \<Rightarrow> None | s # ss \<Rightarrow> Some (oldestOf s ss))"

definition oldestTime :: "SentBuffer \<Rightarrow> time_point option" where
  "oldestTime buf = (case sentTimes buf of [] \<Rightarrow> None | t # ts \<Rightarrow> Some (foldl min t ts))"

section \<open>The receive buffer\<close>

text \<open>
  Modelled from the spec: the class of \<open>Connection::m_recvPackets\<close> is not part of the
  sources. The spec (4.D): a fixed-capacity ring of M = 256 packets keyed by the incoming
  seqnum;
  \<^item> \<open>insert(s, packet)\<close> writes slot \<open>s mod M\<close> and returns the prior occupant if any;
  \<^item> \<open>removeLast\<close> pops the occupant with minimal circular seqnum (the oldest), and
    returns nothing on an empty buffer;
  \<^item> \<open>empty\<close>: no slot is occupied.
\<close>

definition recvCapacity :: nat where
  "recvCapacity = 256"

record RecvBuffer =
  received :: "Packet option list"

definition newRecvBuffer :: RecvBuffer where
  "newRecvBuffer = \<lparr> received = replicate recvCapacity None \<rparr>"

definition recv_insert :: "u16 \<Rightarrow> Packet \<Rightarrow> RecvBuffer \<Rightarrow> Packet option \<times> RecvBuffer" where
  "recv_insert s p buf =
     (let i = unat s mod recvCapacity
      in (received buf ! i, buf \<lparr> received := (received buf)[i := Some p] \<rparr>))"

definition recv_empty :: "RecvBuffer \<Rightarrow> bool" where
  "recv_empty buf = list_all (\<lambda>x. x = None) (received buf)"

text \<open>The occupied slots, each with its index and the seqnum of its packet.\<close>

definition recvOccupied :: "RecvBuffer \<Rightarrow> (nat \<times> u16) list" where
  "recvOccupied buf =
     concat (map (\<lambda>(i, x). case x of None \<Rightarrow> [] | Some p \<Rightarrow> [(i, seqNum (header p))])
       (enumerate 0 (received buf)))"

fun oldestSlot :: "nat \<times> u16 \<Rightarrow> (nat \<times> u16) list \<Rightarrow> nat \<times> u16" where
  "oldestSlot c [] = c"
| "oldestSlot c (x # xs) = oldestSlot (if moreRecentSeqNum (snd c) (snd x) then x else c) xs"

definition removeLast :: "RecvBuffer \<Rightarrow> Packet option \<times> RecvBuffer" where
  "removeLast buf =
     (case recvOccupied buf of
        [] \<Rightarrow> (None, buf)
      | c # cs \<Rightarrow>
          (let i = fst (oldestSlot c cs)
           in (received buf ! i, buf \<lparr> received := (received buf)[i := None] \<rparr>)))"

section \<open>The connection\<close>

text \<open>
  \<open>Connection\<close> (\<open>connection.cpp\<close>): the members the functions use. A
  \<open>udp::endpoint\<close> is a number. The log statements write to the log only and are left
  out.
\<close>

type_synonym endpoint = nat
type_synonym error_code = int

record Connection =
  m_peer :: endpoint
  m_isDead :: bool
  m_averageRTT :: u32
  m_recvCount :: size_t
  m_sentCount :: size_t
  m_ackdCount :: size_t
  m_ack :: AckField
  m_sentPackets :: SentBuffer
  m_recvPackets :: RecvBuffer
  m_recvTime :: time_point

text \<open>The calls an \<open>ISocketStateObserver\<close> receives (\<open>socket_state_observer.h\<close>).\<close>

datatype Notification =
    OnConnect endpoint
  | OnPeerDisconnect endpoint
  | OnBadPacketSize endpoint nat
  | OnError endpoint error_code
  | OnSocketShutdown

text \<open>
  What a connection reaches through \<open>m_socket\<close> and the system clock:
  \<^item> \<open>posted\<close>: the jobs \<open>doSend(packet, resendLimit)\<close> given to
    \<open>getIOService()->post\<close> and not yet run, each with the peer of its connection;
  \<^item> \<open>datagrams\<close>: the packets handed to \<open>rawSocket().async_send_to\<close>, each with its
    destination, in the order of the calls;
  \<^item> \<open>notified\<close>: the calls made through \<open>notifyObservers\<close>;
  \<^item> \<open>clock\<close>: what \<open>system_clock::now()\<close> returns; it does not advance while a
    handler runs.
\<close>

record SocketIO =
  posted :: "(endpoint \<times> Packet \<times> size_t) list"
  datagrams :: "(Packet \<times> endpoint) list"
  notified :: "Notification list"
  clock :: time_point

type_synonym conn_state = "Connection \<times> SocketIO"

text \<open>
  \<open>Connection::Connection\<close>. The ack field and the buffers are default-constructed
  members: an ack field of zeros and empty buffers.
\<close>

definition newConnection :: "endpoint \<Rightarrow> Connection" where
  "newConnection peer =
     \<lparr> m_peer = peer, m_isDead = False, m_averageRTT = initialRTT, m_recvCount = 0,
       m_sentCount = 0, m_ackdCount = 0, m_ack = \<lparr> latest = 0, bits = 0 \<rparr>,
       m_sentPackets = newSentBuffer, m_recvPackets = newRecvBuffer, m_recvTime = 0 \<rparr>"

text \<open>\<open>Connection::markDead\<close> (\<open>connection.h\<close>).\<close>

definition markDead :: "bool \<Rightarrow> Connection \<Rightarrow> Connection" where
  "markDead v c = c \<lparr> m_isDead := v \<rparr>"

text \<open>\<open>Connection::asyncSend\<close>: posts the job, whatever the state of the connection.\<close>

definition asyncSend :: "Packet \<Rightarrow> size_t \<Rightarrow> conn_state \<Rightarrow> conn_state" where
  "asyncSend p resend = (\<lambda>(c, io). (c, io \<lparr> posted := posted io @ [(m_peer c, p, resend)] \<rparr>))"

text \<open>
  \<open>Connection::doSend\<close>: store the packet; if an entry was displaced and has budget left,
  post its resend with the budget decremented; hand the packet to the socket; count it.
\<close>

definition doSend :: "Packet \<Rightarrow> size_t \<Rightarrow> conn_state \<Rightarrow> conn_state" where
  "doSend p resend = (\<lambda>(c, io).
     (case store (clock io) p resend (m_ack c) (m_sentPackets c) of
        (old, stamped, buf) \<Rightarrow>
          (case (case packet old of
                   None \<Rightarrow> (c \<lparr> m_sentPackets := buf \<rparr>, io)
                 | Some q \<Rightarrow>
                     (if resendLimit old > 0
                      then asyncSend q (resendLimit old - 1) (c \<lparr> m_sentPackets := buf \<rparr>, io)
                      else (c \<lparr> m_sentPackets := buf \<rparr>, io))) of
             (c1, io1) \<Rightarrow>
               (c1 \<lparr> m_sentCount := m_sentCount c1 + 1 \<rparr>,
                io1 \<lparr> datagrams := datagrams io1 @ [(stamped, m_peer c1)] \<rparr>))))"

text \<open>
  \<open>Connection::removeUndeliveredPacket\<close>. The result is \<open>None\<close> where the code would
  call \<open>release\<close> outside its precondition or read an unset packet pointer.
\<close>

definition removeUndeliveredPacket :: "u16 \<Rightarrow> conn_state \<Rightarrow> conn_state option" where
  "removeUndeliveredPacket s = (\<lambda>(c, io).
     (if contains s (m_sentPackets c) then
        (case release s (m_sentPackets c) of
           None \<Rightarrow> None
         | Some (pExt, buf) \<Rightarrow>
             (if resendLimit pExt > 0 then
                (case packet pExt of
                   None \<Rightarrow> None
                 | Some q \<Rightarrow> Some (doSend q (resendLimit pExt - 1) (c \<lparr> m_sentPackets := buf \<rparr>, io)))
              else Some (c \<lparr> m_sentPackets := buf \<rparr>, io)))
      else Some (c, io)))"

text \<open>
  \<open>Connection::confirmPacketDelivery\<close>. The observed RTT is the millisecond count
  \<open>now - timestamp\<close>, cast to \<open>size_t\<close>.
\<close>

definition confirmPacketDelivery :: "u16 \<Rightarrow> conn_state \<Rightarrow> conn_state option" where
  "confirmPacketDelivery s = (\<lambda>(c, io).
     (if contains s (m_sentPackets c) then
        (case release s (m_sentPackets c) of
           None \<Rightarrow> None
         | Some (pExt, buf) \<Rightarrow>
             Some (c \<lparr> m_sentPackets := buf,
                       m_averageRTT :=
                         rttUpdate (m_averageRTT c) (word_of_int (clock io - timestamp pExt)),
                       m_ackdCount := m_ackdCount c + 1 \<rparr>, io))
      else Some (c, io)))"

text \<open>\<open>Connection::handleSend\<close>: the completion handler of \<open>async_send_to\<close>.\<close>

definition handleSend :: "Packet \<Rightarrow> error_code \<Rightarrow> conn_state \<Rightarrow> conn_state option" where
  "handleSend p err = (\<lambda>(c, io).
     (if err \<noteq> 0 then
        removeUndeliveredPacket (seqNum (header p))
          (c, io \<lparr> notified := notified io @ [OnError (m_peer c) err] \<rparr>)
      else Some (c, io)))"

text \<open>
  Modelled from the spec (4.B): \<open>forEachAckedSeqNum(f)\<close> of the ack field, with a callback
  that changes the state and may fail.
\<close>

fun forEachSeqNum :: "(u16 \<Rightarrow> 's \<Rightarrow> 's option) \<Rightarrow> u16 list \<Rightarrow> 's \<Rightarrow> 's option" where
  "forEachSeqNum f [] st = Some st"
| "forEachSeqNum f (s # ss) st = (case f s st of None \<Rightarrow> None | Some st' \<Rightarrow> forEachSeqNum f ss st')"

definition forEachAckedSeqNum :: "(u16 \<Rightarrow> 's \<Rightarrow> 's option) \<Rightarrow> AckField \<Rightarrow> 's \<Rightarrow> 's option" where
  "forEachAckedSeqNum f a st = forEachSeqNum f (ackedSeqNums a) st"

text \<open>
  The loop of \<open>Connection::processPeerAcks\<close>: while the buffer is not empty and its
  oldest entry is behind \<open>minSeqNum\<close> or older than \<open>minTime\<close>, remove that entry.
  \<open>None\<close> stands for a run that does not return (or fails as above).
\<close>

partial_function (option) removeStale :: "time_point \<Rightarrow> u16 \<Rightarrow> conn_state \<Rightarrow> conn_state option"
where
  "removeStale minTime minSeqNum st =
     (if sent_empty (m_sentPackets (fst st)) then Some st
      else
        (case oldestSeqNum (m_sentPackets (fst st)) of
           None \<Rightarrow> None
         | Some s \<Rightarrow>
             (case oldestTime (m_sentPackets (fst st)) of
                None \<Rightarrow> None
              | Some t \<Rightarrow>
                  (if moreRecentSeqNum minSeqNum s \<or> minTime > t then
                     Option.bind (removeUndeliveredPacket s st) (removeStale minTime minSeqNum)
                   else Some st))))"

declare removeStale.simps [code]

text \<open>\<open>Connection::processPeerAcks\<close>; two seconds are 2000 ticks of the clock.\<close>

definition processPeerAcks :: "AckField \<Rightarrow> conn_state \<Rightarrow> conn_state option" where
  "processPeerAcks peerAck st =
     (case forEachAckedSeqNum confirmPacketDelivery peerAck st of
        None \<Rightarrow> None
      | Some st1 \<Rightarrow> removeStale (clock (snd st1) - 2000) (latest peerAck - 256) st1)"

text \<open>\<open>Connection::handleReceive\<close>.\<close>

definition handleReceive :: "Packet \<Rightarrow> conn_state \<Rightarrow> conn_state option" where
  "handleReceive p = (\<lambda>(c, io).
     (case processPeerAcks (ack (header p))
             (c \<lparr> m_recvTime := clock io,
                  m_recvCount := m_recvCount c + 1,
                  m_ack := updateForSeqNum (seqNum (header p)) (m_ack c) \<rparr>, io) of
        None \<Rightarrow> None
      | Some (c1, io1) \<Rightarrow>
          (case recv_insert (seqNum (header p)) p (m_recvPackets c1) of
             (old, buf) \<Rightarrow> Some (c1 \<lparr> m_recvPackets := buf \<rparr>, io1))))"

section \<open>Dispatching received packets\<close>

text \<open>The number of occupied slots: \<open>removeLast\<close> on a non-empty buffer frees one.\<close>

definition recvOccupancy :: "RecvBuffer \<Rightarrow> nat" where
  "recvOccupancy buf = length (filter (\<lambda>x. x \<noteq> None) (received buf))"

lemma oldestSlot_in: "oldestSlot c cs \<in> set (c # cs)"
  by (induction cs arbitrary: c) (auto split: if_splits)

lemma in_recvOccupied:
  "(i, s) \<in> set (recvOccupied buf) \<longleftrightarrow>
     i < length (received buf) \<and> (\<exists>p. received buf ! i = Some p \<and> s = seqNum (header p))"
proof -
  have "(i, s) \<in> set (recvOccupied buf) \<longleftrightarrow>
          (\<exists>x. (i, x) \<in> set (enumerate 0 (received buf)) \<and>
               (\<exists>p. x = Some p \<and> s = seqNum (header p)))"
    unfolding recvOccupied_def by (auto split: option.splits)
  then show ?thesis
    by (simp add: in_set_enumerate_eq)
qed

lemma length_filter_update_None:
  assumes "i < length xs" "xs ! i \<noteq> None"
  shows "length (filter (\<lambda>x. x \<noteq> None) (xs[i := None])) < length (filter (\<lambda>x. x \<noteq> None) xs)"
  using assms
proof (induction xs arbitrary: i)
  case Nil
  then show ?case by simp
next
  case (Cons x xs)
  then show ?case by (cases i) auto
qed

lemma recv_empty_iff: "recv_empty buf \<longleftrightarrow> recvOccupied buf = []"
proof
  assume e: "recv_empty buf"
  show "recvOccupied buf = []"
  proof (cases "recvOccupied buf")
    case (Cons x xs)
    obtain i s where "x = (i, s)" by (cases x)
    with Cons have "(i, s) \<in> set (recvOccupied buf)" by simp
    then show ?thesis
      using e by (auto simp: in_recvOccupied recv_empty_def list_all_length)
  qed simp
next
  assume n: "recvOccupied buf = []"
  show "recv_empty buf"
    unfolding recv_empty_def list_all_length
  proof (intro allI impI)
    fix i assume i: "i < length (received buf)"
    show "received buf ! i = None"
    proof (cases "received buf ! i")
      case (Some p)
      with i have "(i, seqNum (header p)) \<in> set (recvOccupied buf)"
        by (simp add: in_recvOccupied)
      with n show ?thesis by simp
    qed simp
  qed
qed

lemma removeLast_decreases:
  assumes "\<not> recv_empty buf"
  shows "recvOccupancy (snd (removeLast buf)) < recvOccupancy buf"
proof -
  from assms obtain c cs where occ: "recvOccupied buf = c # cs"
    by (auto simp: recv_empty_iff neq_Nil_conv)
  define i where "i = fst (oldestSlot c cs)"
  have "oldestSlot c cs \<in> set (recvOccupied buf)"
    using oldestSlot_in [of c cs] occ by simp
  then have "(i, snd (oldestSlot c cs)) \<in> set (recvOccupied buf)"
    by (simp add: i_def)
  then have i: "i < length (received buf)" "received buf ! i \<noteq> None"
    by (auto simp: in_recvOccupied)
  have "snd (removeLast buf) = buf \<lparr> received := (received buf)[i := None] \<rparr>"
    using occ by (simp add: removeLast_def Let_def i_def)
  then show ?thesis
    unfolding recvOccupancy_def using length_filter_update_None [OF i] by simp
qed

text \<open>
  The loop of \<open>Connection::dispatchReceivedPackets\<close>: while the buffer is not empty, pop
  the oldest packet and, if there is one, hand it to the dispatcher. \<open>acc\<close> lists the
  packets handed over so far, in the order of the calls.
\<close>

function dispatchLoop :: "RecvBuffer \<Rightarrow> Packet list \<Rightarrow> RecvBuffer \<times> Packet list" where
  "dispatchLoop buf acc =
     (if recv_empty buf then (buf, acc)
      else (case removeLast buf of
              (None, buf') \<Rightarrow> dispatchLoop buf' acc
            | (Some p, buf') \<Rightarrow> dispatchLoop buf' (acc @ [p])))"
  by pat_completeness auto
termination
  apply (relation "measure (\<lambda>(buf, acc). recvOccupancy buf)")
    apply simp
   apply (metis removeLast_decreases in_measure case_prod_conv snd_conv)
  apply (metis removeLast_decreases in_measure case_prod_conv snd_conv)
  done

text \<open>
  \<open>Connection::dispatchReceivedPackets\<close>: the connection afterwards and the packets the
  dispatcher was called with, in order.
\<close>

definition dispatchReceivedPackets :: "Connection \<Rightarrow> Connection \<times> Packet list" where
  "dispatchReceivedPackets c =
     (case dispatchLoop (m_recvPackets c) [] of
        (buf, delivered) \<Rightarrow> (c \<lparr> m_recvPackets := buf \<rparr>, delivered))"

section \<open>The handlers as the executor runs them\<close>

text \<open>
  The entry points of a connection, as the application and the io_service call them, in
  any order: the application posts a send; the executor runs the oldest posted job; a
  substrate send completes, with or without an error, for some packet; a packet arrives;
  the clock advances; the application drains the receive buffer.
\<close>

datatype Event =
    AppSend Packet size_t
  | RunJob
  | SendDone Packet error_code
  | Receive Packet
  | Tick nat
  | Dispatch

fun step :: "Event \<Rightarrow> conn_state \<Rightarrow> conn_state option" where
  "step (AppSend p k) st = Some (asyncSend p k st)"
| "step RunJob (c, io) =
     (case posted io of
        [] \<Rightarrow> Some (c, io)
      | (peer, p, k) # rest \<Rightarrow> Some (doSend p k (c, io \<lparr> posted := rest \<rparr>)))"
| "step (SendDone p err) st = handleSend p err st"
| "step (Receive p) st = handleReceive p st"
| "step (Tick d) (c, io) = Some (c, io \<lparr> clock := clock io + int d \<rparr>)"
| "step Dispatch (c, io) = Some (fst (dispatchReceivedPackets c), io)"

fun run :: "Event list \<Rightarrow> conn_state \<Rightarrow> conn_state option" where
  "run [] st = Some st"
| "run (e # es) st = (case step e st of None \<Rightarrow> None | Some st' \<Rightarrow> run es st')"

definition idleIO :: SocketIO where
  "idleIO = \<lparr> posted = [], datagrams = [], notified = [], clock = 0 \<rparr>"

section \<open>Framing and the socket's receive path\<close>

text \<open>
  Modelled from the spec: the packet codec and \<open>SmartSocket\<close> are not part of the
  sources. The spec (4.A, 6): a datagram is the 12-byte header (protocol u32, seqNum u16,
  ack u16, ackBits u32, little-endian) followed by the payload; \<open>decode\<close> fails with
  BadPacketSize if the datagram is shorter than the header or longer than 512 bytes.
\<close>

definition headerSize :: nat where
  "headerSize = 12"

definition maxDatagramSize :: nat where
  "maxDatagramSize = 512"

datatype FramingError = BadPacketSize nat

fun fromLE :: "u8 list \<Rightarrow> 'a::len word" where
  "fromLE [] = 0"
| "fromLE (b # bs) = ucast b OR push_bit 8 (fromLE bs)"

definition decode :: "u8 list \<Rightarrow> FramingError + Packet" where
  "decode bytes =
     (if length bytes < headerSize \<or> length bytes > maxDatagramSize
      then Inl (BadPacketSize (length bytes))
      else Inr \<lparr> header =
                   \<lparr> protocol = fromLE (take 4 bytes),
                     seqNum = fromLE (take 2 (drop 4 bytes)),
                     ack = \<lparr> latest = fromLE (take 2 (drop 6 bytes)),
                             bits = fromLE (take 4 (drop 8 bytes)) \<rparr> \<rparr>,
                 payload = drop headerSize bytes \<rparr>)"

text \<open>
  Modelled from the spec (4.F): the socket owns the registry of connections and the
  observers; each completed read either is a framing violation, reported through
  \<open>onBadPacketSize\<close> with no connection looked up, or is decoded and given to
  \<open>handleReceive\<close> of the connection of its sender, created if there is none.
\<close>

record SmartSocket =
  connections :: "endpoint \<Rightarrow> Connection option"
  socketIO :: SocketIO

definition receiveCompletion :: "endpoint \<Rightarrow> u8 list \<Rightarrow> SmartSocket \<Rightarrow> SmartSocket option" where
  "receiveCompletion sender bytes sock =
     (case decode bytes of
        Inl (BadPacketSize n) \<Rightarrow>
          Some (sock \<lparr> socketIO := (socketIO sock)
                         \<lparr> notified := notified (socketIO sock) @ [OnBadPacketSize sender n] \<rparr> \<rparr>)
      | Inr p \<Rightarrow>
          (case handleReceive p
                  (case connections sock sender of
                     None \<Rightarrow> newConnection sender
                   | Some c \<Rightarrow> c, socketIO sock) of
             None \<Rightarrow> None
           | Some (c', io') \<Rightarrow>
               Some (sock \<lparr> connections := (connections sock)(sender \<mapsto> c'), socketIO := io' \<rparr>)))"

section \<open>Auxiliary definitions\<close>

text \<open>
  The job \<open>Connection::doSend\<close> posts for a displaced entry: none for a free slot or a
  spent budget, else the resend with the budget decremented.
\<close>

definition evictedResend :: "endpoint \<Rightarrow> PacketExt \<Rightarrow> (endpoint \<times> Packet \<times> size_t) list" where
  "evictedResend peer old =
     (case packet old of
        None \<Rightarrow> []
      | Some q \<Rightarrow> if resendLimit old > 0 then [(peer, q, resendLimit old - 1)] else [])"

text \<open>A packet as an application hands it over: a payload of one byte, the header not yet stamped.\<close>

definition samplePacket :: "u16 \<Rightarrow> u8 \<Rightarrow> Packet" where
  "samplePacket s b =
     \<lparr> header = \<lparr> protocol = 1, seqNum = s, ack = \<lparr> latest = 0, bits = 0 \<rparr> \<rparr>, payload = [b] \<rparr>"

text \<open>A fresh connection after one \<open>doSend\<close>: seqnum 0 is in flight.\<close>

definition sentOne :: conn_state where
  "sentOne = doSend (samplePacket 0 1) 0 (newConnection 7, idleIO)"

text \<open>
  A sent buffer is well formed when it has its 256 slots and every occupied slot holds a
  packet whose seqnum maps to that slot; \<open>store\<close> and \<open>release\<close> keep it so.
\<close>

definition wfSent :: "SentBuffer \<Rightarrow> bool" where
  "wfSent buf \<longleftrightarrow>
     length (slots buf) = sentCapacity \<and>
     list_all (\<lambda>i. case packet (slots buf ! i) of
                      None \<Rightarrow> True
                    | Some p \<Rightarrow> unat (seqNum (header p)) mod sentCapacity = i)
       [0..<sentCapacity]"

text \<open>
  The resends an entry can still cause, plus one for the entry itself; the sum over the
  buffer decreases with every \<open>removeUndeliveredPacket\<close> of an entry it holds.
\<close>

definition entryCost :: "PacketExt \<Rightarrow> nat" where
  "entryCost e = (case packet e of None \<Rightarrow> 0 | Some p \<Rightarrow> unat (resendLimit e) + 1)"

definition sentCost :: "SentBuffer \<Rightarrow> nat" where
  "sentCost buf = sum_list (map entryCost (slots buf))"

text \<open>
  The exit condition of the loop of \<open>processPeerAcks\<close>: the buffer is empty, or its
  oldest seqnum is not behind \<open>minSeqNum\<close> and its oldest timestamp not before
  \<open>minTime\<close>.
\<close>

definition oldestNotStale :: "time_point \<Rightarrow> u16 \<Rightarrow> SentBuffer \<Rightarrow> bool" where
  "oldestNotStale minTime minSeqNum buf \<longleftrightarrow>
     sent_empty buf \<or>
     (\<exists>s t. oldestSeqNum buf = Some s \<and> oldestTime buf = Some t \<and>
            \<not> moreRecentSeqNum minSeqNum s \<and> \<not> minTime > t)"

text \<open>
  The seqnums \<open>ss\<close> all lie less than half the seqnum circle ahead of \<open>base\<close>; on
  such seqnums the circular order is a linear order.
\<close>

definition inWindow :: "u16 \<Rightarrow> u16 list \<Rightarrow> bool" where
  "inWindow base ss = list_all (\<lambda>s. unat (s - base) < 2 ^ 15) ss"

text \<open>A fresh connection after three and after five sends, all at clock 0.\<close>

definition sentThree :: conn_state where
  "sentThree =
     doSend (samplePacket 0 3) 0 (doSend (samplePacket 0 2) 0 (doSend (samplePacket 0 1) 0
       (newConnection 7, idleIO)))"

definition sentFive :: conn_state where
  "sentFive = doSend (samplePacket 0 5) 0 (doSend (samplePacket 0 4) 0 sentThree)"

section \<open>The send path with shared packet objects\<close>

text \<open>
  A \<open>PacketPtr\<close> is a shared pointer: the sent buffer, the posted jobs and the
  completion handlers hold the pointer, and \<open>store\<close> stamps the header of the object
  it points to. Above, a pointer is modelled by the value it points to, which is the same
  as long as no packet object is held in two places at once. To count the resends of one
  packet object, whatever the content of the others and however often the application
  submits the same object, this section keeps the objects in a store indexed by address
  and lets the containers hold addresses. The names are those of the sections above with
  the suffix P.
\<close>

type_synonym PacketPtr = nat
type_synonym objects = "PacketPtr \<Rightarrow> Packet"

text \<open>\<open>Connection::PacketExt\<close> (\<open>connection.h\<close>), with its pointer.\<close>

record PacketExtP =
  packetP :: "PacketPtr option"
  resendLimitP :: size_t
  timestampP :: time_point

definition emptyExtP :: PacketExtP where
  "emptyExtP = \<lparr> packetP = None, resendLimitP = 0, timestampP = 0 \<rparr>"

text \<open>
  Modelled from the spec (4.C), as the sent buffer above. \<open>store\<close> stamps the object the
  pointer refers to; the seqnum of an entry is the one in the header of its object
  (\<open>PacketExt::header()\<close> returns \<open>packet->header()\<close>), so \<open>contains\<close> and
  \<open>oldestSeqNum\<close> read it through the pointer.
\<close>

record SentBufferP =
  slotsP :: "PacketExtP list"
  nextSeqNumP :: u16

definition newSentBufferP :: SentBufferP where
  "newSentBufferP = \<lparr> slotsP = replicate sentCapacity emptyExtP, nextSeqNumP = 0 \<rparr>"

definition storeP ::
  "time_point \<Rightarrow> PacketPtr \<Rightarrow> size_t \<Rightarrow> AckField \<Rightarrow> SentBufferP \<Rightarrow> objects \<Rightarrow>
     PacketExtP \<times> SentBufferP \<times> objects"
where
  "storeP now a resend ackNow buf h =
     (let s = nextSeqNumP buf;
          i = unat s mod sentCapacity
      in (slotsP buf ! i,
          buf \<lparr> slotsP := (slotsP buf)
                   [i := \<lparr> packetP = Some a, resendLimitP = resend, timestampP = now \<rparr>],
                nextSeqNumP := s + 1 \<rparr>,
          h (a := (h a) \<lparr> header := (header (h a)) \<lparr> seqNum := s, ack := ackNow \<rparr> \<rparr>)))"

definition containsP :: "u16 \<Rightarrow> SentBufferP \<Rightarrow> objects \<Rightarrow> bool" where
  "containsP s buf h =
     (case packetP (slotsP buf ! (unat s mod sentCapacity)) of
        None \<Rightarrow> False
      | Some a \<Rightarrow> seqNum (header (h a)) = s)"

definition releaseP :: "u16 \<Rightarrow> SentBufferP \<Rightarrow> objects \<Rightarrow> (PacketExtP \<times> SentBufferP) option" where
  "releaseP s buf h =
     (if containsP s buf h then
        (let i = unat s mod sentCapacity
         in Some (slotsP buf ! i, buf \<lparr> slotsP := (slotsP buf)[i := emptyExtP] \<rparr>))
      else None)"

definition sent_emptyP :: "SentBufferP \<Rightarrow> bool" where
  "sent_emptyP buf = list_all (\<lambda>e. packetP e = None) (slotsP buf)"

definition sentSeqNumsP :: "SentBufferP \<Rightarrow> objects \<Rightarrow> u16 list" where
  "sentSeqNumsP buf h =
     concat (map (\<lambda>e. case packetP e of None \<Rightarrow> [] | Some a \<Rightarrow> [seqNum (header (h a))]) (slotsP buf))"

definition sentTimesP :: "SentBufferP \<Rightarrow> time_point list" where
  "sentTimesP buf = map timestampP (filter (\<lambda>e. packetP e \<noteq> None) (slotsP buf))"

definition oldestSeqNumP :: "SentBufferP \<Rightarrow> objects \<Rightarrow> u16 option" where
  "oldestSeqNumP buf h = (case sentSeqNumsP buf h of [] \<Rightarrow> None | s # ss \<Rightarrow> Some (oldestOf s ss))"

definition oldestTimeP :: "SentBufferP \<Rightarrow> time_point option" where
  "oldestTimeP buf = (case sentTimesP buf of [] \<Rightarrow> None | t # ts \<Rightarrow> Some (foldl min t ts))"

text \<open>The connection and what it reaches through the socket, with pointers for packets to send.\<close>

record ConnectionP =
  m_peerP :: endpoint
  m_isDeadP :: bool
  m_averageRTTP :: u32
  m_recvCountP :: size_t
  m_sentCountP :: size_t
  m_ackdCountP :: size_t
  m_ackP :: AckField
  m_sentPacketsP :: SentBufferP
  m_recvPacketsP :: RecvBuffer
  m_recvTimeP :: time_point

record SocketIOP =
  postedP :: "(endpoint \<times> PacketPtr \<times> size_t) list"
  datagramsP :: "(PacketPtr \<times> Packet \<times> endpoint) list"
  notifiedP :: "Notification list"
  clockP :: time_point

type_synonym stateP = "ConnectionP \<times> objects \<times> SocketIOP"

definition newConnectionP :: "endpoint \<Rightarrow> ConnectionP" where
  "newConnectionP peer =
     \<lparr> m_peerP = peer, m_isDeadP = False, m_averageRTTP = initialRTT, m_recvCountP = 0,
       m_sentCountP = 0, m_ackdCountP = 0, m_ackP = \<lparr> latest = 0, bits = 0 \<rparr>,
       m_sentPacketsP = newSentBufferP, m_recvPacketsP = newRecvBuffer, m_recvTimeP = 0 \<rparr>"

text \<open>\<open>Connection::markDead\<close> (\<open>connection.h\<close>).\<close>

definition markDeadP :: "bool \<Rightarrow> ConnectionP \<Rightarrow> ConnectionP" where
  "markDeadP v c = c \<lparr> m_isDeadP := v \<rparr>"

definition idleIOP :: SocketIOP where
  "idleIOP = \<lparr> postedP = [], datagramsP = [], notifiedP = [], clockP = 0 \<rparr>"

text \<open>\<open>Connection::asyncSend\<close>.\<close>

definition asyncSendP :: "PacketPtr \<Rightarrow> size_t \<Rightarrow> stateP \<Rightarrow> stateP" where
  "asyncSendP a resend = (\<lambda>(c, h, io). (c, h, io \<lparr> postedP := postedP io @ [(m_peerP c, a, resend)] \<rparr>))"

text \<open>
  \<open>Connection::doSend\<close>. The datagram is recorded with the pointer whose buffer is handed
  to \<open>async_send_to\<close>, its content at the call and its destination.
\<close>

definition evictedResendP :: "endpoint \<Rightarrow> PacketExtP \<Rightarrow> (endpoint \<times> PacketPtr \<times> size_t) list" where
  "evictedResendP peer old =
     (case packetP old of
        None \<Rightarrow> []
      | Some q \<Rightarrow> if resendLimitP old > 0 then [(peer, q, resendLimitP old - 1)] else [])"

definition doSendP :: "PacketPtr \<Rightarrow> size_t \<Rightarrow> stateP \<Rightarrow> stateP" where
  "doSendP a resend = (\<lambda>(c, h, io).
     (case storeP (clockP io) a resend (m_ackP c) (m_sentPacketsP c) h of
        (old, buf, h') \<Rightarrow>
          (c \<lparr> m_sentPacketsP := buf, m_sentCountP := m_sentCountP c + 1 \<rparr>,
           h',
           io \<lparr> postedP := postedP io @ evictedResendP (m_peerP c) old,
                datagramsP := datagramsP io @ [(a, h' a, m_peerP c)] \<rparr>)))"

text \<open>\<open>Connection::removeUndeliveredPacket\<close> and \<open>Connection::confirmPacketDelivery\<close>.\<close>

definition removeUndeliveredPacketP :: "u16 \<Rightarrow> stateP \<Rightarrow> stateP option" where
  "removeUndeliveredPacketP s = (\<lambda>(c, h, io).
     (if containsP s (m_sentPacketsP c) h then
        (case releaseP s (m_sentPacketsP c) h of
           None \<Rightarrow> None
         | Some (pExt, buf) \<Rightarrow>
             (if resendLimitP pExt > 0 then
                (case packetP pExt of
                   None \<Rightarrow> None
                 | Some q \<Rightarrow>
                     Some (doSendP q (resendLimitP pExt - 1) (c \<lparr> m_sentPacketsP := buf \<rparr>, h, io)))
              else Some (c \<lparr> m_sentPacketsP := buf \<rparr>, h, io)))
      else Some (c, h, io)))"

definition confirmPacketDeliveryP :: "u16 \<Rightarrow> stateP \<Rightarrow> stateP option" where
  "confirmPacketDeliveryP s = (\<lambda>(c, h, io).
     (if containsP s (m_sentPacketsP c) h then
        (case releaseP s (m_sentPacketsP c) h of
           None \<Rightarrow> None
         | Some (pExt, buf) \<Rightarrow>
             Some (c \<lparr> m_sentPacketsP := buf,
                       m_averageRTTP :=
                         rttUpdate (m_averageRTTP c) (word_of_int (clockP io - timestampP pExt)),
                       m_ackdCountP := m_ackdCountP c + 1 \<rparr>, h, io))
      else Some (c, h, io)))"

text \<open>
  \<open>Connection::handleSend\<close>: the completion handler holds the pointer and reads the
  seqnum the object has when the handler runs.
\<close>

definition handleSendP :: "PacketPtr \<Rightarrow> error_code \<Rightarrow> stateP \<Rightarrow> stateP option" where
  "handleSendP a err = (\<lambda>(c, h, io).
     (if err \<noteq> 0 then
        removeUndeliveredPacketP (seqNum (header (h a)))
          (c, h, io \<lparr> notifiedP := notifiedP io @ [OnError (m_peerP c) err] \<rparr>)
      else Some (c, h, io)))"

text \<open>
  The loop of \<open>Connection::processPeerAcks\<close>, \<open>processPeerAcks\<close> and
  \<open>handleReceive\<close>. The result of the loop is \<open>None\<close> when it does not end.
\<close>

partial_function (option) removeStaleP :: "time_point \<Rightarrow> u16 \<Rightarrow> stateP \<Rightarrow> stateP option" where
  "removeStaleP minTime minSeqNum st =
     (if sent_emptyP (m_sentPacketsP (fst st)) then Some st
      else
        (case oldestSeqNumP (m_sentPacketsP (fst st)) (fst (snd st)) of
           None \<Rightarrow> None
         | Some s \<Rightarrow>
             (case oldestTimeP (m_sentPacketsP (fst st)) of
                None \<Rightarrow> None
              | Some t \<Rightarrow>
                  (if moreRecentSeqNum minSeqNum s \<or> minTime > t then
                     Option.bind (removeUndeliveredPacketP s st) (removeStaleP minTime minSeqNum)
                   else Some st))))"

declare removeStaleP.simps [code]

definition processPeerAcksP :: "AckField \<Rightarrow> stateP \<Rightarrow> stateP option" where
  "processPeerAcksP peerAck st =
     (case forEachAckedSeqNum confirmPacketDeliveryP peerAck st of
        None \<Rightarrow> None
      | Some st1 \<Rightarrow> removeStaleP (clockP (snd (snd st1)) - 2000) (latest peerAck - 256) st1)"

definition handleReceiveP :: "Packet \<Rightarrow> stateP \<Rightarrow> stateP option" where
  "handleReceiveP p = (\<lambda>(c, h, io).
     (case processPeerAcksP (ack (header p))
             (c \<lparr> m_recvTimeP := clockP io,
                  m_recvCountP := m_recvCountP c + 1,
                  m_ackP := updateForSeqNum (seqNum (header p)) (m_ackP c) \<rparr>, h, io) of
        None \<Rightarrow> None
      | Some (c1, h1, io1) \<Rightarrow>
          (case recv_insert (seqNum (header p)) p (m_recvPacketsP c1) of
             (old, buf) \<Rightarrow> Some (c1 \<lparr> m_recvPacketsP := buf \<rparr>, h1, io1))))"

definition dispatchReceivedPacketsP :: "ConnectionP \<Rightarrow> ConnectionP \<times> Packet list" where
  "dispatchReceivedPacketsP c =
     (case dispatchLoop (m_recvPacketsP c) [] of
        (buf, delivered) \<Rightarrow> (c \<lparr> m_recvPacketsP := buf \<rparr>, delivered))"

text \<open>
  The entry points, as above; the application submits a packet object by its address,
  and a completed send names the object it was started for.
\<close>

datatype EventP =
    AppSendP PacketPtr size_t
  | RunJobP
  | SendDoneP PacketPtr error_code
  | ReceiveP Packet
  | TickP nat
  | DispatchP

fun stepP :: "EventP \<Rightarrow> stateP \<Rightarrow> stateP option" where
  "stepP (AppSendP a k) st = Some (asyncSendP a k st)"
| "stepP RunJobP (c, h, io) =
     (case postedP io of
        [] \<Rightarrow> Some (c, h, io)
      | (peer, a, k) # rest \<Rightarrow> Some (doSendP a k (c, h, io \<lparr> postedP := rest \<rparr>)))"
| "stepP (SendDoneP a err) st = handleSendP a err st"
| "stepP (ReceiveP p) st = handleReceiveP p st"
| "stepP (TickP d) (c, h, io) = Some (c, h, io \<lparr> clockP := clockP io + int d \<rparr>)"
| "stepP DispatchP (c, h, io) = Some (fst (dispatchReceivedPacketsP c), h, io)"

fun runP :: "EventP list \<Rightarrow> stateP \<Rightarrow> stateP option" where
  "runP [] st = Some st"
| "runP (e # es) st = (case stepP e st of None \<Rightarrow> None | Some st' \<Rightarrow> runP es st')"

section \<open>Packet objects held in one place\<close>

text \<open>
  The objects the entries of the sent buffer and the posted jobs point to, and the
  objects the application submits in a run.
\<close>

definition slotObjects :: "SentBufferP \<Rightarrow> PacketPtr list" where
  "slotObjects buf = concat (map (\<lambda>e. case packetP e of None \<Rightarrow> [] | Some a \<Rightarrow> [a]) (slotsP buf))"

definition postedObjects :: "SocketIOP \<Rightarrow> PacketPtr list" where
  "postedObjects io = map (\<lambda>job. fst (snd job)) (postedP io)"

text \<open>
  The sent buffer is well formed when it has its 256 slots and the object of every
  occupied slot has a seqnum that maps to that slot; then no object is in two slots.
  No packet object is shared when moreover the posted jobs are for different objects,
  none of which is in the sent buffer.
\<close>

definition wfSentP :: "SentBufferP \<Rightarrow> objects \<Rightarrow> bool" where
  "wfSentP buf h \<longleftrightarrow>
     length (slotsP buf) = sentCapacity \<and>
     list_all (\<lambda>i. case packetP (slotsP buf ! i) of
                      None \<Rightarrow> True
                    | Some a \<Rightarrow> unat (seqNum (header (h a))) mod sentCapacity = i)
       [0..<sentCapacity]"

definition noSharing :: "stateP \<Rightarrow> bool" where
  "noSharing st \<longleftrightarrow>
     wfSentP (m_sentPacketsP (fst st)) (fst (snd st)) \<and>
     distinct (postedObjects (snd (snd st))) \<and>
     list_all (\<lambda>a. a \<notin> set (postedObjects (snd (snd st)))) (slotObjects (m_sentPacketsP (fst st)))"

definition inFlight :: "stateP \<Rightarrow> PacketPtr list" where
  "inFlight st = slotObjects (m_sentPacketsP (fst st)) @ postedObjects (snd (snd st))"

fun submittedObjects :: "EventP list \<Rightarrow> PacketPtr list" where
  "submittedObjects [] = []"
| "submittedObjects (AppSendP a k # es) = a # submittedObjects es"
| "submittedObjects (e # es) = submittedObjects es"

text \<open>
  The resends the entries can still cause, plus one for each entry; the sum decreases
  with every \<open>removeUndeliveredPacket\<close> of an entry the buffer holds.
\<close>

definition entryCostP :: "PacketExtP \<Rightarrow> nat" where
  "entryCostP e = (case packetP e of None \<Rightarrow> 0 | Some a \<Rightarrow> unat (resendLimitP e) + 1)"

definition sentCostP :: "SentBufferP \<Rightarrow> nat" where
  "sentCostP buf = sum_list (map entryCostP (slotsP buf))"


section \<open>Counting resends\<close>

text \<open>
  For one packet object \<open>a\<close>:
  \<^item> \<open>transmissionsP\<close>: how often it was handed to \<open>async_send_to\<close>;
  \<^item> \<open>pendingResendsP\<close>: the posted jobs that will send it;
  \<^item> \<open>budgetInBufferP\<close>: the resend budgets of the sent-buffer entries that hold it;
  \<^item> \<open>budgetPostedP\<close>: for every posted job that will send it, the job's budget and
    one for the send itself;
  \<^item> \<open>submittedP\<close>: the same, for the sends the application asks for in a run.
\<close>

definition entryBudgetP :: "PacketPtr \<Rightarrow> PacketExtP \<Rightarrow> nat" where
  "entryBudgetP a e = (if packetP e = Some a then unat (resendLimitP e) else 0)"

definition budgetInBufferP :: "PacketPtr \<Rightarrow> SentBufferP \<Rightarrow> nat" where
  "budgetInBufferP a buf = sum_list (map (entryBudgetP a) (slotsP buf))"

definition jobBudgetP :: "PacketPtr \<Rightarrow> endpoint \<times> PacketPtr \<times> size_t \<Rightarrow> nat" where
  "jobBudgetP a job = (if fst (snd job) = a then unat (snd (snd job)) + 1 else 0)"

definition budgetPostedP :: "PacketPtr \<Rightarrow> SocketIOP \<Rightarrow> nat" where
  "budgetPostedP a io = sum_list (map (jobBudgetP a) (postedP io))"

definition transmissionsP :: "PacketPtr \<Rightarrow> SocketIOP \<Rightarrow> nat" where
  "transmissionsP a io = length (filter (\<lambda>d. fst d = a) (datagramsP io))"

definition pendingResendsP :: "PacketPtr \<Rightarrow> SocketIOP \<Rightarrow> nat" where
  "pendingResendsP a io = length (filter (\<lambda>job. fst (snd job) = a) (postedP io))"

definition resendPotentialP :: "PacketPtr \<Rightarrow> stateP \<Rightarrow> nat" where
  "resendPotentialP a st =
     transmissionsP a (snd (snd st)) + budgetPostedP a (snd (snd st)) +
     budgetInBufferP a (m_sentPacketsP (fst st))"

fun submittedP :: "PacketPtr \<Rightarrow> EventP list \<Rightarrow> nat" where
  "submittedP a [] = 0"
| "submittedP a (AppSendP q k # es) = (if q = a then unat k + 1 else 0) + submittedP a es"
| "submittedP a (e # es) = submittedP a es"

text \<open>
  A packet of the peer that acknowledges nothing in flight; packet objects that all have
  the same content; a connection that has sent two of them, object 1 with budget 2 and
  object 2 with budget 1; and a run in which every send is lost: a send of object 1 fails
  in the substrate, both entries are detected as lost after 3 seconds when a packet of
  the peer arrives, and the last sends of both fail again.
\<close>

definition peerPacket :: Packet where
  "peerPacket = \<lparr> header = \<lparr> protocol = 1, seqNum = 0, ack = \<lparr> latest = 9, bits = 0 \<rparr> \<rparr>, payload = [] \<rparr>"

definition twins :: objects where
  "twins = (\<lambda>a. samplePacket 0 1)"

definition sentTwins :: stateP where
  "sentTwins = doSendP 2 1 (doSendP 1 2 (newConnectionP 7, twins, idleIOP))"

definition lossyRunP :: "EventP list" where
  "lossyRunP = [SendDoneP 1 5, TickP 3000, ReceiveP peerPacket, SendDoneP 1 5, SendDoneP 2 5]"

section \<open>What a drain delivers\<close>



text \<open>
  The receive buffer after the packets \<open>ps\<close> were inserted in this order, as
  \<open>Connection::handleReceive\<close> does for each arriving packet.
\<close>

definition receiveAll :: "RecvBuffer \<Rightarrow> Packet list \<Rightarrow> RecvBuffer" where
  "receiveAll buf ps = foldl (\<lambda>b p. snd (recv_insert (seqNum (header p)) p b)) buf ps"







section \<open>Properties of the ack field\<close>

lemma moreRecentSeqNum_irrefl: "\<not> moreRecentSeqNum s s"
  by (simp add: moreRecentSeqNum_def)

section \<open>Bounds of the round-trip estimate\<close>

lemma rttUpdate_unat:
  assumes "9 * unat a + unat ob < 2 ^ 32"
  shows "unat (rttUpdate a ob) = (9 * unat a + unat ob) div 10"
proof -
  have lt9: "9 * unat a < 2 ^ 32" using assms by linarith
  then have 9: "unat (9 * a) = 9 * unat a"
    by (simp add: unat_word_ariths)
  have "unat (ucast (9 * a) :: size_t) = unat (9 * a) mod 2 ^ 64"
    by (simp add: unsigned_ucast_eq take_bit_eq_mod)
  also have "\<dots> = 9 * unat a"
    using 9 lt9 by simp
  finally have u: "unat (ucast (9 * a) :: size_t) = 9 * unat a" .
  have lt: "9 * unat a + unat ob < 2 ^ 64"
    using assms by (rule less_trans) simp
  have "unat (ucast (9 * a) + ob :: size_t) = (unat (ucast (9 * a) :: size_t) + unat ob) mod 2 ^ 64"
    by (simp add: unat_word_ariths)
  also have "\<dots> = 9 * unat a + unat ob"
    using lt u by simp
  finally have d: "unat ((ucast (9 * a) + ob) div 10 :: size_t) = (9 * unat a + unat ob) div 10"
    by (simp add: unat_div)
  have s: "(9 * unat a + unat ob) div 10 < 2 ^ 32"
    using assms by (meson div_le_dividend le_less_trans)
  have "unat (rttUpdate a ob) = unat ((ucast (9 * a) + ob) div 10 :: size_t) mod 2 ^ 32"
    unfolding rttUpdate_def by (simp add: unsigned_ucast_eq take_bit_eq_mod)
  with d s show ?thesis by simp
qed

lemma rttUpdate_between:
  assumes "L \<le> unat a" "unat a \<le> H" "L \<le> unat ob" "unat ob \<le> H" "10 * H < 2 ^ 32"
  shows "L \<le> unat (rttUpdate a ob) \<and> unat (rttUpdate a ob) \<le> H"
proof -
  have "9 * unat a + unat ob < 2 ^ 32"
    using assms by linarith
  then have "unat (rttUpdate a ob) = (9 * unat a + unat ob) div 10"
    by (rule rttUpdate_unat)
  moreover have "10 * L \<le> 9 * unat a + unat ob" "9 * unat a + unat ob \<le> 10 * H"
    using assms by linarith+
  ultimately show ?thesis
    by simp linarith
qed

lemma foldl_rttUpdate_between:
  assumes "\<forall>ob \<in> set obs. L \<le> unat ob \<and> unat ob \<le> H"
    and "L \<le> unat a" "unat a \<le> H" "10 * H < 2 ^ 32"
  shows "L \<le> unat (foldl rttUpdate a obs) \<and> unat (foldl rttUpdate a obs) \<le> H"
  using assms
proof (induction obs arbitrary: a)
  case Nil
  then show ?case by simp
next
  case (Cons ob obs)
  have "L \<le> unat (rttUpdate a ob) \<and> unat (rttUpdate a ob) \<le> H"
    using Cons.prems by (intro rttUpdate_between) auto
  then show ?case
    using Cons by simp
qed

text \<open>
  Claim C7, as stated, fails, in two ways. The estimate starts at 50 ms, so observations
  that all equal 100 ms (lo = hi = 100) leave it at 55 after one update, and the integer
  division holds it at 91 from the 21st update on; it is never within one unit of
  [100, 100]. And the arithmetic wraps around: after the observations 4772185440 ms and
  50 ms the product \<open>9 * 477218589\<close> exceeds 32 bits and the estimate is 5 ms, below
  the initial value and below every observation.
\<close>

theorem averageRTT_not_within_observed_range:
  "rttAfter [100] = 55 \<and> \<not> (100 - 1 \<le> rttAfter [100])
   \<and> rttAfter (replicate 21 100) = 91 \<and> rttAfter (replicate 22 100) = 91
   \<and> rttAfter [4772185440] = 477218589 \<and> rttAfter [4772185440, 50] = 5"
  by code_simp

text \<open>
  Claim C7, amended. If every observed RTT fed to the update
  \<open>avgRTT = (9 * avgRTT + observedRTT) / 10\<close> lies in [lo, hi], and \<open>10 * max hi 50\<close>
  is less than \<open>2^32\<close> (nothing wraps around), then after any number of updates avgRTT
  lies in \<open>[min lo 50, max hi 50]\<close>: between the initial 50 ms and the observations.
\<close>

theorem averageRTT_bounded:
  assumes "\<forall>ob \<in> set obs. lo \<le> ob \<and> ob \<le> hi" and "10 * max (unat hi) 50 < 2 ^ 32"
  shows "min (unat lo) 50 \<le> unat (rttAfter obs) \<and> unat (rttAfter obs) \<le> max (unat hi) 50"
  unfolding rttAfter_def
  using assms by (intro foldl_rttUpdate_between) (auto simp: initialRTT_def word_le_nat_alt)

theorem averageRTT_bounded_witness:
  "list_all (\<lambda>ob. 40 \<le> ob \<and> ob \<le> 60) [40, 60, 45 :: size_t] \<and>
   10 * max (unat (60 :: size_t)) 50 < (2 :: nat) ^ 32 \<and>
   min (unat (40 :: size_t)) 50 \<le> unat (rttAfter [40, 60, 45]) \<and>
   unat (rttAfter [40, 60, 45]) \<le> max (unat (60 :: size_t)) 50 \<and>
   rttAfter [40, 60, 45] = 49"
proof -
  have 1: "\<forall>ob \<in> set [40, 60, 45 :: size_t]. 40 \<le> ob \<and> ob \<le> 60" by simp
  have 2: "10 * max (unat (60 :: size_t)) 50 < (2 :: nat) ^ 32" by simp
  have 3: "rttAfter [40, 60, 45] = 49" by code_simp
  from averageRTT_bounded [OF 1 2] 1 2 3 show ?thesis by simp
qed

section \<open>The sent buffer and the send path\<close>

lemma contains_packet: "contains s buf \<Longrightarrow> \<exists>p. packet (slots buf ! (unat s mod sentCapacity)) = Some p"
  by (auto simp: contains_def split: option.splits)

lemma release_Some: "contains s buf \<Longrightarrow> \<exists>e b. release s buf = Some (e, b) \<and> packet e \<noteq> None"
  by (auto simp: release_def Let_def dest: contains_packet)

lemma slot_less: "unat (s::u16) mod sentCapacity < sentCapacity"
  by (simp add: sentCapacity_def)

lemma store_slots_length [simp]:
  "length (slots (snd (snd (store now p r a buf)))) = length (slots buf)"
  by (simp add: store_def Let_def)

lemma store_contains:
  assumes "length (slots buf) = sentCapacity"
  shows "contains s (snd (snd (store now p r a buf))) \<longleftrightarrow>
           s = nextSeqNum buf \<or>
           (unat s mod sentCapacity \<noteq> unat (nextSeqNum buf) mod sentCapacity \<and> contains s buf)"
  using assms slot_less [of s] slot_less [of "nextSeqNum buf"]
  by (auto simp: store_def Let_def contains_def nth_list_update)

lemma doSend_eq:
  assumes "store (clock io) p r (m_ack c) (m_sentPackets c) = (old, stamped, buf)"
  shows "doSend p r (c, io) =
     (c \<lparr> m_sentPackets := buf, m_sentCount := m_sentCount c + 1 \<rparr>,
      io \<lparr> posted := posted io @ evictedResend (m_peer c) old,
           datagrams := datagrams io @ [(stamped, m_peer c)] \<rparr>)"
proof (cases "packet old")
  case None
  then show ?thesis
    using assms by (simp add: doSend_def evictedResend_def)
next
  case (Some q)
  then show ?thesis
    using assms by (cases "resendLimit old > 0") (simp_all add: doSend_def evictedResend_def asyncSend_def)
qed

lemma release_eq:
  "release s buf = Some (e, b) \<longleftrightarrow>
     contains s buf \<and> e = slots buf ! (unat s mod sentCapacity) \<and>
     b = buf \<lparr> slots := (slots buf)[unat s mod sentCapacity := emptyExt] \<rparr>"
  by (cases "contains s buf") (auto simp: release_def Let_def)

lemma contains_update_other:
  assumes "length xs = sentCapacity" "unat s' mod sentCapacity \<noteq> i"
  shows "contains s' (buf \<lparr> slots := xs[i := e] \<rparr>) = contains s' (buf \<lparr> slots := xs \<rparr>)"
  using assms by (simp add: contains_def)

lemma contains_update_same:
  assumes "length xs = sentCapacity" "unat s' mod sentCapacity = i"
  shows "contains s' (buf \<lparr> slots := xs[i := e] \<rparr>) =
           (case packet e of None \<Rightarrow> False | Some p \<Rightarrow> seqNum (header p) = s')"
  using assms slot_less [of s'] by (simp add: contains_def)

lemma contains_same_slot:
  assumes "contains s buf" "contains s' buf" "unat s' mod sentCapacity = unat s mod sentCapacity"
  shows "s' = s"
  using assms by (auto simp: contains_def split: option.splits)

lemma release_contains:
  assumes len: "length (slots buf) = sentCapacity" and rel: "release s buf = Some (e, b)"
  shows "contains s' b \<longleftrightarrow> s' \<noteq> s \<and> contains s' buf"
proof -
  from rel have c: "contains s buf"
    and b: "b = buf \<lparr> slots := (slots buf)[unat s mod sentCapacity := emptyExt] \<rparr>"
    by (simp_all add: release_eq)
  show ?thesis
  proof (cases "unat s' mod sentCapacity = unat s mod sentCapacity")
    case True
    then have "\<not> contains s' b"
      using contains_update_same [OF len True, where buf=buf and e=emptyExt] b by (simp add: emptyExt_def)
    moreover have "contains s' buf \<Longrightarrow> s' = s"
      using contains_same_slot [OF c _ True] by simp
    ultimately show ?thesis by auto
  next
    case False
    then have "contains s' b = contains s' buf"
      using contains_update_other [OF len False, where buf=buf and e=emptyExt] b by simp
    moreover have "s' \<noteq> s" using False by auto
    ultimately show ?thesis by simp
  qed
qed

lemma release_length:
  "release s buf = Some (e, b) \<Longrightarrow> length (slots b) = length (slots buf)"
  by (simp add: release_eq)

lemma release_nextSeqNum:
  "release s buf = Some (e, b) \<Longrightarrow> nextSeqNum b = nextSeqNum buf"
  by (simp add: release_eq)

lemma removeUndeliveredPacket_absent:
  "\<not> contains s (m_sentPackets c) \<Longrightarrow> removeUndeliveredPacket s (c, io) = Some (c, io)"
  by (simp add: removeUndeliveredPacket_def)

lemma removeUndeliveredPacket_present:
  assumes "contains s (m_sentPackets c)"
  obtains e b q where "release s (m_sentPackets c) = Some (e, b)" and "packet e = Some q"
    and "seqNum (header q) = s"
    and "removeUndeliveredPacket s (c, io) =
             Some (if resendLimit e > 0
                   then doSend q (resendLimit e - 1) (c \<lparr> m_sentPackets := b \<rparr>, io)
                   else (c \<lparr> m_sentPackets := b \<rparr>, io))"
proof -
  from assms obtain q where q: "packet (slots (m_sentPackets c) ! (unat s mod sentCapacity)) = Some q"
    "seqNum (header q) = s"
    by (auto simp: contains_def split: option.splits)
  define e where "e = slots (m_sentPackets c) ! (unat s mod sentCapacity)"
  define b where "b = (m_sentPackets c) \<lparr> slots := (slots (m_sentPackets c))[unat s mod sentCapacity := emptyExt] \<rparr>"
  have rel: "release s (m_sentPackets c) = Some (e, b)"
    using assms by (simp add: release_eq e_def b_def)
  have "removeUndeliveredPacket s (c, io) =
             Some (if resendLimit e > 0
                   then doSend q (resendLimit e - 1) (c \<lparr> m_sentPackets := b \<rparr>, io)
                   else (c \<lparr> m_sentPackets := b \<rparr>, io))"
    using assms rel q by (simp add: removeUndeliveredPacket_def e_def)
  with rel q show ?thesis
    unfolding e_def [symmetric] by (rule that [of e b q])
qed

lemma confirmPacketDelivery_present:
  assumes "contains s (m_sentPackets c)"
  shows "\<exists>e b. release s (m_sentPackets c) = Some (e, b) \<and>
           confirmPacketDelivery s (c, io) =
             Some (c \<lparr> m_sentPackets := b,
                       m_averageRTT := rttUpdate (m_averageRTT c) (word_of_int (clock io - timestamp e)),
                       m_ackdCount := m_ackdCount c + 1 \<rparr>, io)"
proof -
  obtain e b where rel: "release s (m_sentPackets c) = Some (e, b)"
    using release_Some [OF assms] by blast
  then show ?thesis
    using assms by (simp add: confirmPacketDelivery_def)
qed

lemma confirmPacketDelivery_absent:
  "\<not> contains s (m_sentPackets c) \<Longrightarrow> confirmPacketDelivery s (c, io) = Some (c, io)"
  by (simp add: confirmPacketDelivery_def)

lemma doSend_sentPackets:
  "m_sentPackets (fst (doSend p r (c, io))) = snd (snd (store (clock io) p r (m_ack c) (m_sentPackets c)))"
proof -
  obtain old stamped buf where s: "store (clock io) p r (m_ack c) (m_sentPackets c) = (old, stamped, buf)"
    by (rule prod_cases3)
  show ?thesis by (simp add: doSend_eq [OF s] s)
qed

lemma doSend_notified: "notified (snd (doSend p r (c, io))) = notified io"
proof -
  obtain old stamped buf where s: "store (clock io) p r (m_ack c) (m_sentPackets c) = (old, stamped, buf)"
    by (rule prod_cases3)
  show ?thesis by (simp add: doSend_eq [OF s])
qed

lemma removeUndeliveredPacket_notified:
  assumes "removeUndeliveredPacket s (c, io) = Some (c', io')"
  shows "notified io' = notified io"
proof (cases "contains s (m_sentPackets c)")
  case False
  with assms show ?thesis by (simp add: removeUndeliveredPacket_absent)
next
  case True
  obtain e b q where rel: "release s (m_sentPackets c) = Some (e, b)"
    and eq: "removeUndeliveredPacket s (c, io) =
             Some (if resendLimit e > 0
                   then doSend q (resendLimit e - 1) (c \<lparr> m_sentPackets := b \<rparr>, io)
                   else (c \<lparr> m_sentPackets := b \<rparr>, io))"
    by (rule removeUndeliveredPacket_present [OF True, of io]) (rule that; assumption)
  with assms have
    "(c', io') = (if resendLimit e > 0
                   then doSend q (resendLimit e - 1) (c \<lparr> m_sentPackets := b \<rparr>, io)
                   else (c \<lparr> m_sentPackets := b \<rparr>, io))"
    by simp
  then show ?thesis
    using doSend_notified [of q "resendLimit e - 1" "c \<lparr> m_sentPackets := b \<rparr>" io]
    by (cases "resendLimit e > 0") (simp_all, metis snd_conv)
qed

lemma removeUndeliveredPacket_removes:
  assumes len: "length (slots (m_sentPackets c)) = sentCapacity"
    and nxt: "nextSeqNum (m_sentPackets c) \<noteq> s"
    and rm: "removeUndeliveredPacket s (c, io) = Some (c', io')"
  shows "\<not> contains s (m_sentPackets c')"
proof (cases "contains s (m_sentPackets c)")
  case False
  with rm show ?thesis by (simp add: removeUndeliveredPacket_absent)
next
  case True
  obtain e b q where rel: "release s (m_sentPackets c) = Some (e, b)"
    and eq: "removeUndeliveredPacket s (c, io) =
             Some (if resendLimit e > 0
                   then doSend q (resendLimit e - 1) (c \<lparr> m_sentPackets := b \<rparr>, io)
                   else (c \<lparr> m_sentPackets := b \<rparr>, io))"
    by (rule removeUndeliveredPacket_present [OF True, of io]) (rule that; assumption)
  from eq rm have res: "(c', io') = (if resendLimit e > 0
                   then doSend q (resendLimit e - 1) (c \<lparr> m_sentPackets := b \<rparr>, io)
                   else (c \<lparr> m_sentPackets := b \<rparr>, io))"
    by simp
  have nb: "\<not> contains s b"
    using release_contains [OF len rel] by simp
  have lb: "length (slots b) = sentCapacity" "nextSeqNum b \<noteq> s"
    using release_length [OF rel] release_nextSeqNum [OF rel] len nxt by simp_all
  show ?thesis
  proof (cases "resendLimit e > 0")
    case False
    with res nb show ?thesis by simp
  next
    case pos: True
    with res have "c' = fst (doSend q (resendLimit e - 1) (c \<lparr> m_sentPackets := b \<rparr>, io))"
      by (metis fst_conv)
    then have "m_sentPackets c' = snd (snd (store (clock io) q (resendLimit e - 1) (m_ack c) b))"
      by (simp add: doSend_sentPackets)
    then show ?thesis
      using store_contains [OF lb(1)] nb lb(2) by auto
  qed
qed

lemma removeUndeliveredPacket_returns: "removeUndeliveredPacket s (c, io) \<noteq> None"
proof (cases "contains s (m_sentPackets c)")
  case True
  then obtain e b where "release s (m_sentPackets c) = Some (e, b)" "packet e \<noteq> None"
    using release_Some by blast
  with True show ?thesis
    by (auto simp: removeUndeliveredPacket_def)
next
  case False
  then show ?thesis
    by (simp add: removeUndeliveredPacket_def)
qed

lemma confirmPacketDelivery_returns: "confirmPacketDelivery s (c, io) \<noteq> None"
proof (cases "contains s (m_sentPackets c)")
  case True
  then obtain e b where "release s (m_sentPackets c) = Some (e, b)"
    using release_Some by blast
  with True show ?thesis
    by (simp add: confirmPacketDelivery_def)
next
  case False
  then show ?thesis
    by (simp add: confirmPacketDelivery_def)
qed

text \<open>
  Claim C9. For every seqnum s not held in the sent buffer, \<open>removeUndeliveredPacket(s)\<close>
  and \<open>confirmPacketDelivery(s)\<close> change nothing: the connection and what it reaches
  through the socket stay as they are. Both call \<open>release\<close> only under the
  \<open>contains(s)\<close> guard, so neither ever fails on \<open>release\<close>'s precondition.
\<close>

theorem absent_seqNum_is_noop:
  "(\<not> contains s (m_sentPackets c) \<longrightarrow>
      removeUndeliveredPacket s (c, io) = Some (c, io) \<and>
      confirmPacketDelivery s (c, io) = Some (c, io))
   \<and> removeUndeliveredPacket s (c, io) \<noteq> None
   \<and> confirmPacketDelivery s (c, io) \<noteq> None"
  using removeUndeliveredPacket_returns [of s c io] confirmPacketDelivery_returns [of s c io]
  by (simp add: removeUndeliveredPacket_absent confirmPacketDelivery_absent)

theorem absent_seqNum_is_noop_witness:
  "\<not> contains 5 (m_sentPackets (newConnection 7)) \<and>
   removeUndeliveredPacket 5 (newConnection 7, idleIO) = Some (newConnection 7, idleIO) \<and>
   confirmPacketDelivery 5 (newConnection 7, idleIO) = Some (newConnection 7, idleIO)"
  using absent_seqNum_is_noop [of 5 "newConnection 7" idleIO]
  by (simp add: contains_def newConnection_def newSentBuffer_def sentCapacity_def emptyExt_def)

text \<open>
  Claim C10. When the substrate send completes without error (error code 0),
  \<open>handleSend\<close> changes nothing: the entry stays in the sent buffer, no observer is
  notified, no field is modified. On a non-zero error code it notifies \<open>onError\<close> (and
  nothing else) and the entry of the packet's seqnum is no longer in the sent buffer
  (in a buffer of 256 slots whose next seqnum is another one).
\<close>

theorem handleSend_effect:
  "handleSend p 0 st = Some st \<and>
   (err \<noteq> 0 \<longrightarrow>
      (\<exists>c' io'. handleSend p err (c, io) = Some (c', io') \<and>
         notified io' = notified io @ [OnError (m_peer c) err] \<and>
         (length (slots (m_sentPackets c)) = sentCapacity \<and>
          nextSeqNum (m_sentPackets c) \<noteq> seqNum (header p) \<longrightarrow>
            \<not> contains (seqNum (header p)) (m_sentPackets c'))))"
proof (intro conjI impI)
  show "handleSend p 0 st = Some st"
    by (cases st) (simp add: handleSend_def)
next
  assume err: "err \<noteq> 0"
  define io1 where "io1 = io \<lparr> notified := notified io @ [OnError (m_peer c) err] \<rparr>"
  have hs: "handleSend p err (c, io) = removeUndeliveredPacket (seqNum (header p)) (c, io1)"
    using err by (simp add: handleSend_def io1_def)
  have "removeUndeliveredPacket (seqNum (header p)) (c, io1) \<noteq> None"
    by (rule removeUndeliveredPacket_returns)
  then obtain c' io' where r: "removeUndeliveredPacket (seqNum (header p)) (c, io1) = Some (c', io')"
    by (cases "removeUndeliveredPacket (seqNum (header p)) (c, io1)") auto
  have n: "notified io' = notified io @ [OnError (m_peer c) err]"
    using removeUndeliveredPacket_notified [OF r] by (simp add: io1_def)
  have "length (slots (m_sentPackets c)) = sentCapacity \<Longrightarrow>
          nextSeqNum (m_sentPackets c) \<noteq> seqNum (header p) \<Longrightarrow>
            \<not> contains (seqNum (header p)) (m_sentPackets c')"
    by (rule removeUndeliveredPacket_removes [OF _ _ r])
  with n hs r show "\<exists>c' io'. handleSend p err (c, io) = Some (c', io') \<and>
         notified io' = notified io @ [OnError (m_peer c) err] \<and>
         (length (slots (m_sentPackets c)) = sentCapacity \<and>
          nextSeqNum (m_sentPackets c) \<noteq> seqNum (header p) \<longrightarrow>
            \<not> contains (seqNum (header p)) (m_sentPackets c'))"
    by simp
qed

lemma sentOne_facts:
  "length (slots (m_sentPackets (fst sentOne))) = sentCapacity"
  "nextSeqNum (m_sentPackets (fst sentOne)) \<noteq> seqNum (header (samplePacket 0 1))"
  "contains 0 (m_sentPackets (fst sentOne))"
  "m_peer (fst sentOne) = 7"
  "notified (snd sentOne) = []"
  by code_simp+

theorem handleSend_effect_witness:
  "(5::int) \<noteq> 0 \<and> contains 0 (m_sentPackets (fst sentOne)) \<and>
   handleSend (samplePacket 0 1) 0 sentOne = Some sentOne \<and>
   (\<exists>c' io'. handleSend (samplePacket 0 1) 5 sentOne = Some (c', io') \<and>
      notified io' = [OnError 7 5] \<and> \<not> contains 0 (m_sentPackets c'))"
  using handleSend_effect [of "samplePacket 0 1" sentOne 5 "fst sentOne" "snd sentOne"] sentOne_facts
  by (simp add: samplePacket_def)

section \<open>Framing\<close>

text \<open>
  Claim C8. An inbound datagram whose length is outside [12, 512] is rejected: the
  observers get \<open>onBadPacketSize\<close> with the sender and the length, and neither the
  registry of connections nor anything else of the socket changes. Every datagram with
  a length inside [12, 512] passes the framing validation.
\<close>

theorem bad_size_rejected:
  "(length bytes < 12 \<or> 512 < length bytes \<longrightarrow>
      decode bytes = Inl (BadPacketSize (length bytes)) \<and>
      (\<exists>sock'. receiveCompletion sender bytes sock = Some sock' \<and>
         connections sock' = connections sock \<and>
         notified (socketIO sock') = notified (socketIO sock) @ [OnBadPacketSize sender (length bytes)] \<and>
         posted (socketIO sock') = posted (socketIO sock) \<and>
         datagrams (socketIO sock') = datagrams (socketIO sock) \<and>
         clock (socketIO sock') = clock (socketIO sock)))
   \<and> (12 \<le> length bytes \<and> length bytes \<le> 512 \<longrightarrow> (\<exists>p. decode bytes = Inr p \<and> payload p = drop 12 bytes))"
  by (auto simp: decode_def receiveCompletion_def headerSize_def maxDatagramSize_def)

theorem bad_size_rejected_witness:
  "length (replicate 11 (0::u8)) < 12 \<and> 512 < length (replicate 513 (0::u8)) \<and>
   decode (replicate 11 0) = Inl (BadPacketSize 11) \<and>
   decode (replicate 513 0) = Inl (BadPacketSize 513) \<and>
   (\<exists>p. decode (replicate 12 0) = Inr p \<and> payload p = []) \<and>
   (\<exists>p. decode (replicate 512 0) = Inr p \<and> payload p = replicate 500 0)"
  using bad_size_rejected [of "replicate 11 0"] bad_size_rejected [of "replicate 513 0"]
    bad_size_rejected [of "replicate 12 0"] bad_size_rejected [of "replicate 512 0"]
  by simp

section \<open>Well-formed sent buffers and the loss-detection loop\<close>

lemma wfSent_iff:
  "wfSent buf \<longleftrightarrow>
     length (slots buf) = sentCapacity \<and>
     (\<forall>i < sentCapacity. \<forall>p. packet (slots buf ! i) = Some p \<longrightarrow>
        unat (seqNum (header p)) mod sentCapacity = i)"
  by (auto simp: wfSent_def list_all_iff split: option.splits)

lemma wfSent_length: "wfSent buf \<Longrightarrow> length (slots buf) = sentCapacity"
  by (simp add: wfSent_iff)

lemma in_sentSeqNums:
  "s \<in> set (sentSeqNums buf) \<longleftrightarrow>
     (\<exists>i < length (slots buf). \<exists>p. packet (slots buf ! i) = Some p \<and> seqNum (header p) = s)"
proof -
  have one: "s \<in> set (case packet e of None \<Rightarrow> [] | Some p \<Rightarrow> [seqNum (header p)]) \<longleftrightarrow>
          (\<exists>p. packet e = Some p \<and> seqNum (header p) = s)" for e
    by (cases "packet e") auto
  have "s \<in> set (sentSeqNums buf) \<longleftrightarrow>
          (\<exists>e \<in> set (slots buf). \<exists>p. packet e = Some p \<and> seqNum (header p) = s)"
    unfolding sentSeqNums_def set_concat set_map UN_iff bex_simps one ..
  also have "\<dots> \<longleftrightarrow>
     (\<exists>i < length (slots buf). \<exists>p. packet (slots buf ! i) = Some p \<and> seqNum (header p) = s)"
    by (metis in_set_conv_nth)
  finally show ?thesis .
qed

lemma wfSent_contains_iff:
  assumes "wfSent buf"
  shows "contains s buf \<longleftrightarrow> s \<in> set (sentSeqNums buf)"
proof
  assume "contains s buf"
  then obtain p where "packet (slots buf ! (unat s mod sentCapacity)) = Some p" "seqNum (header p) = s"
    by (auto simp: contains_def split: option.splits)
  then show "s \<in> set (sentSeqNums buf)"
    using slot_less [of s] wfSent_length [OF assms] unfolding in_sentSeqNums by metis
next
  assume "s \<in> set (sentSeqNums buf)"
  then obtain i p where i: "i < length (slots buf)" "packet (slots buf ! i) = Some p" "seqNum (header p) = s"
    unfolding in_sentSeqNums by blast
  then have "unat s mod sentCapacity = i"
    using assms by (auto simp: wfSent_iff)
  with i show "contains s buf"
    by (simp add: contains_def)
qed

lemma sent_empty_iff: "sent_empty buf \<longleftrightarrow> sentSeqNums buf = []"
proof -
  have "sentSeqNums buf = [] \<longleftrightarrow> (\<forall>s. s \<notin> set (sentSeqNums buf))"
    by (cases "sentSeqNums buf") auto
  also have "\<dots> \<longleftrightarrow> (\<forall>i < length (slots buf). packet (slots buf ! i) = None)"
    unfolding in_sentSeqNums by (metis not_None_eq)
  also have "\<dots> \<longleftrightarrow> sent_empty buf"
    by (simp add: sent_empty_def list_all_length)
  finally show ?thesis by simp
qed

lemma sentTimes_empty_iff: "sentTimes buf = [] \<longleftrightarrow> sent_empty buf"
  by (auto simp: sentTimes_def sent_empty_def filter_empty_conv list_all_iff)

lemma oldestOf_in: "oldestOf c cs \<in> set (c # cs)"
  by (induction cs arbitrary: c) (auto split: if_splits)

lemma oldestSeqNum_contained:
  assumes "wfSent buf" "\<not> sent_empty buf"
  obtains s where "oldestSeqNum buf = Some s" "contains s buf"
proof -
  from assms(2) obtain c cs where occ: "sentSeqNums buf = c # cs"
    by (auto simp: sent_empty_iff neq_Nil_conv)
  then have "oldestSeqNum buf = Some (oldestOf c cs)"
    by (simp add: oldestSeqNum_def)
  moreover have "contains (oldestOf c cs) buf"
    using oldestOf_in [of c cs] occ by (simp add: wfSent_contains_iff [OF assms(1)])
  ultimately show ?thesis by (rule that)
qed

lemma foldl_min_in: "foldl min (t::int) ts \<in> set (t # ts)"
  by (induction ts arbitrary: t) (auto simp: min_def)

lemma foldl_min_le: "x \<in> set (t # ts) \<Longrightarrow> foldl min (t::int) ts \<le> x"
proof (induction ts arbitrary: t x)
  case Nil
  then show ?case by simp
next
  case (Cons a ts)
  have "foldl min (min t a) ts \<le> min t a"
    by (rule Cons.IH) simp
  moreover have "x = t \<or> x = a \<or> x \<in> set ts" using Cons.prems by auto
  moreover have "x \<in> set ts \<Longrightarrow> foldl min (min t a) ts \<le> x"
    by (rule Cons.IH) simp
  ultimately show ?case
    by auto
qed

lemma oldestTime_least:
  assumes "\<not> sent_empty buf"
  obtains t where "oldestTime buf = Some t" "t \<in> set (sentTimes buf)"
    "\<forall>x \<in> set (sentTimes buf). t \<le> x"
proof -
  from assms obtain u us where occ: "sentTimes buf = u # us"
    by (auto simp: sentTimes_empty_iff [symmetric] neq_Nil_conv)
  then have "oldestTime buf = Some (foldl min u us)"
    by (simp add: oldestTime_def)
  moreover have "foldl min u us \<in> set (sentTimes buf)"
    using foldl_min_in [of u us] occ by simp
  moreover have "\<forall>x \<in> set (sentTimes buf). foldl min u us \<le> x"
    using foldl_min_le [of _ u us] occ by simp
  ultimately show ?thesis by (rule that)
qed

lemma sum_list_map_update:
  fixes g :: "'a \<Rightarrow> nat"
  assumes "i < length xs"
  shows "sum_list (map g (xs[i := v])) + g (xs ! i) = sum_list (map g xs) + g v"
  using assms
proof (induction xs arbitrary: i)
  case Nil
  then show ?case by simp
next
  case (Cons x xs)
  then show ?case by (cases i) auto
qed

lemma wfSent_update:
  assumes "wfSent buf" "i < sentCapacity"
    and "\<And>p. packet e = Some p \<Longrightarrow> unat (seqNum (header p)) mod sentCapacity = i"
  shows "wfSent (buf \<lparr> slots := (slots buf)[i := e] \<rparr>)"
  using assms by (auto simp: wfSent_iff nth_list_update)

lemma store_eq:
  "store now p r a buf =
     (slots buf ! (unat (nextSeqNum buf) mod sentCapacity),
      p \<lparr> header := (header p) \<lparr> seqNum := nextSeqNum buf, ack := a \<rparr> \<rparr>,
      buf \<lparr> slots := (slots buf)[unat (nextSeqNum buf) mod sentCapacity :=
               \<lparr> packet = Some (p \<lparr> header := (header p) \<lparr> seqNum := nextSeqNum buf, ack := a \<rparr> \<rparr>),
                 resendLimit = r, timestamp = now \<rparr>],
            nextSeqNum := nextSeqNum buf + 1 \<rparr>)"
  by (simp add: store_def Let_def)

lemma wfSent_nextSeqNum [simp]: "wfSent (buf \<lparr> nextSeqNum := n \<rparr>) = wfSent buf"
  by (simp add: wfSent_iff)

lemma wfSent_store:
  assumes "wfSent buf" "store now p r a buf = (old, stamped, buf')"
  shows "wfSent buf'"
proof -
  have "wfSent (buf \<lparr> slots := (slots buf)[unat (nextSeqNum buf) mod sentCapacity :=
               \<lparr> packet = Some (p \<lparr> header := (header p) \<lparr> seqNum := nextSeqNum buf, ack := a \<rparr> \<rparr>),
                 resendLimit = r, timestamp = now \<rparr>] \<rparr>)"
    by (rule wfSent_update [OF assms(1) slot_less]) auto
  then show ?thesis
    using assms(2) by (auto simp: store_eq)
qed

lemma wfSent_release:
  assumes "wfSent buf" "release s buf = Some (e, b)"
  shows "wfSent b"
proof -
  have "wfSent (buf \<lparr> slots := (slots buf)[unat s mod sentCapacity := emptyExt] \<rparr>)"
    by (rule wfSent_update [OF assms(1) slot_less]) (simp add: emptyExt_def)
  then show ?thesis
    using assms(2) by (simp add: release_eq)
qed

lemma sentCost_release:
  assumes "length (slots buf) = sentCapacity" "release s buf = Some (e, b)"
  shows "sentCost b + entryCost e = sentCost buf"
proof -
  have i: "unat s mod sentCapacity < length (slots buf)"
    using assms(1) slot_less by simp
  have "entryCost emptyExt = 0"
    by (simp add: entryCost_def emptyExt_def)
  then show ?thesis
    using assms(2) sum_list_map_update [OF i, of entryCost emptyExt]
    by (simp add: release_eq sentCost_def)
qed

lemma sentCost_store:
  assumes "length (slots buf) = sentCapacity" "store now p r a buf = (old, stamped, buf')"
  shows "sentCost buf' + entryCost old = sentCost buf + unat r + 1"
proof -
  have i: "unat (nextSeqNum buf) mod sentCapacity < length (slots buf)"
    using assms(1) slot_less by simp
  show ?thesis
    using assms(2) sum_list_map_update [OF i, of entryCost]
    by (auto simp: store_eq sentCost_def entryCost_def)
qed

lemma in_sentTimes:
  "t \<in> set (sentTimes buf) \<longleftrightarrow>
     (\<exists>i < length (slots buf). packet (slots buf ! i) \<noteq> None \<and> timestamp (slots buf ! i) = t)"
proof -
  have "t \<in> set (sentTimes buf) \<longleftrightarrow> (\<exists>e \<in> set (slots buf). packet e \<noteq> None \<and> timestamp e = t)"
    unfolding sentTimes_def by auto
  also have "\<dots> \<longleftrightarrow> (\<exists>i < length (slots buf). packet (slots buf ! i) \<noteq> None \<and> timestamp (slots buf ! i) = t)"
    by (metis in_set_conv_nth)
  finally show ?thesis .
qed

lemma sentTimes_release:
  assumes "release s buf = Some (e, b)"
  shows "set (sentTimes b) \<subseteq> set (sentTimes buf)"
proof
  fix t assume "t \<in> set (sentTimes b)"
  then obtain i where i: "i < length (slots b)" "packet (slots b ! i) \<noteq> None" "timestamp (slots b ! i) = t"
    unfolding in_sentTimes by blast
  have b: "slots b = (slots buf)[unat s mod sentCapacity := emptyExt]"
    using assms by (simp add: release_eq)
  have "i \<noteq> unat s mod sentCapacity"
    using i b by (auto simp: emptyExt_def)
  then have "slots b ! i = slots buf ! i" "i < length (slots buf)"
    using i b by auto
  with i show "t \<in> set (sentTimes buf)"
    unfolding in_sentTimes by auto
qed

lemma doSend_wfSent:
  assumes "wfSent (m_sentPackets c)"
  shows "wfSent (m_sentPackets (fst (doSend p r (c, io))))"
proof -
  obtain old stamped buf where s: "store (clock io) p r (m_ack c) (m_sentPackets c) = (old, stamped, buf)"
    by (rule prod_cases3)
  show ?thesis
    using wfSent_store [OF assms s] by (simp add: doSend_eq [OF s])
qed

lemma doSend_sentCost:
  assumes "length (slots (m_sentPackets c)) = sentCapacity"
  shows "sentCost (m_sentPackets (fst (doSend p r (c, io)))) \<le> sentCost (m_sentPackets c) + unat r + 1"
proof -
  obtain old stamped buf where s: "store (clock io) p r (m_ack c) (m_sentPackets c) = (old, stamped, buf)"
    by (rule prod_cases3)
  show ?thesis
    using sentCost_store [OF assms s] by (simp add: doSend_eq [OF s])
qed

lemma doSend_clock: "clock (snd (doSend p r (c, io))) = clock io"
proof -
  obtain old stamped buf where s: "store (clock io) p r (m_ack c) (m_sentPackets c) = (old, stamped, buf)"
    by (rule prod_cases3)
  show ?thesis by (simp add: doSend_eq [OF s])
qed

lemma removeUndeliveredPacket_step:
  assumes wf: "wfSent (m_sentPackets c)" and cont: "contains s (m_sentPackets c)"
  shows "\<exists>c' io'. removeUndeliveredPacket s (c, io) = Some (c', io') \<and>
    wfSent (m_sentPackets c') \<and>
    sentCost (m_sentPackets c') < sentCost (m_sentPackets c) \<and>
    clock io' = clock io"
proof -
  obtain e b q where rel: "release s (m_sentPackets c) = Some (e, b)"
    and q: "packet e = Some q"
    and eq: "removeUndeliveredPacket s (c, io) =
             Some (if resendLimit e > 0
                   then doSend q (resendLimit e - 1) (c \<lparr> m_sentPackets := b \<rparr>, io)
                   else (c \<lparr> m_sentPackets := b \<rparr>, io))"
    by (rule removeUndeliveredPacket_present [OF cont, of io]) (rule that; assumption)
  have wfb: "wfSent b"
    by (rule wfSent_release [OF wf rel])
  have cost: "sentCost b + unat (resendLimit e) + 1 = sentCost (m_sentPackets c)"
    using sentCost_release [OF wfSent_length [OF wf] rel] q by (simp add: entryCost_def)
  show ?thesis
  proof (cases "resendLimit e > 0")
    case False
    with eq have "removeUndeliveredPacket s (c, io) = Some (c \<lparr> m_sentPackets := b \<rparr>, io)"
      by simp
    then show ?thesis
      using wfb cost by simp
  next
    case True
    define st' where "st' = doSend q (resendLimit e - 1) (c \<lparr> m_sentPackets := b \<rparr>, io)"
    have u: "unat (resendLimit e - 1) = unat (resendLimit e) - 1" "unat (resendLimit e) > 0"
      using True by (simp_all add: unat_minus_one word_greater_zero_iff unat_gt_0)
    have "sentCost (m_sentPackets (fst st')) \<le> sentCost b + unat (resendLimit e - 1) + 1"
      unfolding st'_def using doSend_sentCost [of "c \<lparr> m_sentPackets := b \<rparr>" q "resendLimit e - 1" io]
        wfSent_length [OF wfb] by simp
    then have lt: "sentCost (m_sentPackets (fst st')) < sentCost (m_sentPackets c)"
      using cost u by linarith
    have w: "wfSent (m_sentPackets (fst st'))"
      unfolding st'_def using doSend_wfSent [of "c \<lparr> m_sentPackets := b \<rparr>" q "resendLimit e - 1" io] wfb
      by simp
    have ck: "clock (snd st') = clock io"
      unfolding st'_def by (rule doSend_clock)
    have "removeUndeliveredPacket s (c, io) = Some (fst st', snd st')"
      using eq True by (simp add: st'_def)
    then show ?thesis
      using w lt ck by (intro exI [of _ "fst st'"] exI [of _ "snd st'"]) simp
  qed
qed

lemma removeStale_returns:
  assumes "wfSent (m_sentPackets (fst st))"
  shows "\<exists>st'. removeStale minTime minSeqNum st = Some st'"
  using assms
proof (induction "sentCost (m_sentPackets (fst st))" arbitrary: st rule: less_induct)
  case less
  obtain c io where st: "st = (c, io)" by (cases st)
  show ?case
  proof (cases "sent_empty (m_sentPackets c)")
    case True
    then show ?thesis
      by (subst removeStale.simps) (simp add: st)
  next
    case False
    obtain s where s: "oldestSeqNum (m_sentPackets c) = Some s" "contains s (m_sentPackets c)"
      using oldestSeqNum_contained [of "m_sentPackets c"] less.prems False st by auto
    obtain t where t: "oldestTime (m_sentPackets c) = Some t"
      using oldestTime_least [OF False] by blast
    show ?thesis
    proof (cases "moreRecentSeqNum minSeqNum s \<or> minTime > t")
      case stale: False
      with False s t show ?thesis
        by (subst removeStale.simps) (simp add: st)
    next
      case stale: True
      obtain c' io' where r: "removeUndeliveredPacket s (c, io) = Some (c', io')"
        and w: "wfSent (m_sentPackets c')"
        and lt: "sentCost (m_sentPackets c') < sentCost (m_sentPackets c)"
        using removeUndeliveredPacket_step [of c s io] less.prems s(2) st by auto
      have "\<exists>st'. removeStale minTime minSeqNum (c', io') = Some st'"
        using less.hyps [of "(c', io')"] w lt st by simp
      moreover have "removeStale minTime minSeqNum st = removeStale minTime minSeqNum (c', io')"
        using False s t stale r by (subst removeStale.simps) (simp add: st)
      ultimately show ?thesis by simp
    qed
  qed
qed

lemma removeStale_exit:
  assumes "removeStale minTime minSeqNum st = Some st'"
  shows "oldestNotStale minTime minSeqNum (m_sentPackets (fst st')) \<and>
         (\<exists>ss. forEachSeqNum removeUndeliveredPacket ss st = Some st')"
proof (induct rule: removeStale.raw_induct)
  case (1 rs minTime minSeqNum st st')
  show ?case
  proof (cases "sent_empty (m_sentPackets (fst st))")
    case True
    with 1(2) have "st' = st" by simp
    moreover have "forEachSeqNum removeUndeliveredPacket [] st = Some st" by simp
    ultimately show ?thesis
      using True unfolding oldestNotStale_def by blast
  next
    case False
    with 1(2) obtain s t where s: "oldestSeqNum (m_sentPackets (fst st)) = Some s"
      and t: "oldestTime (m_sentPackets (fst st)) = Some t"
      by (auto split: option.splits)
    show ?thesis
    proof (cases "moreRecentSeqNum minSeqNum s \<or> minTime > t")
      case stale: False
      with False s t 1(2) have "st' = st" by simp
      moreover have "forEachSeqNum removeUndeliveredPacket [] st = Some st" by simp
      ultimately show ?thesis
        using s t stale unfolding oldestNotStale_def by blast
    next
      case stale: True
      with False s t 1(2) obtain st1 where r: "removeUndeliveredPacket s st = Some st1"
        and l: "rs minTime minSeqNum st1 = Some st'"
        by (auto simp: bind_eq_Some_conv)
      from 1(1) [OF l] obtain ss where
        ex: "oldestNotStale minTime minSeqNum (m_sentPackets (fst st'))"
        and ss: "forEachSeqNum removeUndeliveredPacket ss st1 = Some st'"
        by blast
      have "forEachSeqNum removeUndeliveredPacket (s # ss) st = Some st'"
        using r ss by simp
      with ex show ?thesis by blast
    qed
  qed
qed (rule assms)

lemma confirmPacketDelivery_effect:
  assumes wf: "wfSent (m_sentPackets c)"
  shows "\<exists>c'. confirmPacketDelivery s (c, io) = Some (c', io) \<and>
           wfSent (m_sentPackets c') \<and>
           (\<forall>s'. contains s' (m_sentPackets c') \<longleftrightarrow> s' \<noteq> s \<and> contains s' (m_sentPackets c)) \<and>
           set (sentTimes (m_sentPackets c')) \<subseteq> set (sentTimes (m_sentPackets c)) \<and>
           m_ackdCount c' = m_ackdCount c + (if contains s (m_sentPackets c) then 1 else 0)"
proof (cases "contains s (m_sentPackets c)")
  case False
  then have "confirmPacketDelivery s (c, io) = Some (c, io)"
    by (rule confirmPacketDelivery_absent)
  with False wf show ?thesis by auto
next
  case True
  from confirmPacketDelivery_present [OF True, of io]
  obtain e b where rel: "release s (m_sentPackets c) = Some (e, b)"
    and eq: "confirmPacketDelivery s (c, io) =
             Some (c \<lparr> m_sentPackets := b,
                       m_averageRTT := rttUpdate (m_averageRTT c) (word_of_int (clock io - timestamp e)),
                       m_ackdCount := m_ackdCount c + 1 \<rparr>, io)"
    by blast
  have "wfSent b"
    by (rule wfSent_release [OF wf rel])
  moreover have "\<forall>s'. contains s' b \<longleftrightarrow> s' \<noteq> s \<and> contains s' (m_sentPackets c)"
    using release_contains [OF wfSent_length [OF wf] rel] by simp
  moreover have "set (sentTimes b) \<subseteq> set (sentTimes (m_sentPackets c))"
    by (rule sentTimes_release [OF rel])
  ultimately show ?thesis
    using eq True by simp
qed

lemma forEach_confirm_returns:
  assumes "wfSent (m_sentPackets c)"
  shows "\<exists>c'. forEachSeqNum confirmPacketDelivery ss (c, io) = Some (c', io) \<and>
           wfSent (m_sentPackets c')"
  using assms
proof (induction ss arbitrary: c)
  case Nil
  then show ?case by simp
next
  case (Cons s ss)
  from confirmPacketDelivery_effect [OF Cons.prems, of s io]
  obtain c1 where 1: "confirmPacketDelivery s (c, io) = Some (c1, io)" "wfSent (m_sentPackets c1)"
    by blast
  from Cons.IH [OF 1(2)] 1(1) show ?case by simp
qed

lemma removeStale_nothing_stale:
  assumes wf: "wfSent (m_sentPackets c)"
    and seq: "\<forall>s. contains s (m_sentPackets c) \<longrightarrow> \<not> moreRecentSeqNum minSeqNum s"
    and tm: "\<forall>t \<in> set (sentTimes (m_sentPackets c)). minTime \<le> t"
  shows "removeStale minTime minSeqNum (c, io) = Some (c, io)"
proof (cases "sent_empty (m_sentPackets c)")
  case True
  then show ?thesis
    by (subst removeStale.simps) simp
next
  case False
  obtain s where s: "oldestSeqNum (m_sentPackets c) = Some s" "contains s (m_sentPackets c)"
    by (rule oldestSeqNum_contained [OF wf False])
  obtain t where t: "oldestTime (m_sentPackets c) = Some t" "t \<in> set (sentTimes (m_sentPackets c))"
    using oldestTime_least [OF False] by blast
  have "\<not> moreRecentSeqNum minSeqNum s" "\<not> minTime > t"
    using seq s(2) tm t(2) by auto
  with False s t show ?thesis
    by (subst removeStale.simps) simp
qed

lemma oldestNotStale_times:
  assumes "oldestNotStale minTime minSeqNum buf"
  shows "\<forall>t \<in> set (sentTimes buf). minTime \<le> t"
proof (cases "sent_empty buf")
  case True
  then show ?thesis by (simp add: sentTimes_empty_iff [symmetric])
next
  case False
  with assms obtain t where t: "oldestTime buf = Some t" "\<not> minTime > t"
    by (auto simp: oldestNotStale_def)
  obtain t' where "oldestTime buf = Some t'" "\<forall>x \<in> set (sentTimes buf). t' \<le> x"
    using oldestTime_least [OF False] by blast
  with t show ?thesis by auto
qed

lemma uint_sub_u16: "uint (a - b) = (uint a - uint b) mod 65536" for a b :: u16
proof -
  have "(2::int) ^ LENGTH(16) = 65536" by simp
  then show ?thesis
    by (metis uint_word_ariths(2))
qed

lemma unat_less_half: "unat (x::u16) < 2 ^ 15 \<longleftrightarrow> uint x < 32768"
proof -
  have "uint x = int (unat x)" by simp
  moreover have "(2::nat) ^ 15 = 32768" by simp
  ultimately show ?thesis by linarith
qed

lemma moreRecentSeqNum_int:
  "moreRecentSeqNum a b \<longleftrightarrow> (uint a - uint b) mod 65536 < 32768 \<and> a \<noteq> b"
  unfolding moreRecentSeqNum_def unat_less_half uint_sub_u16 ..

declare moreRecentSeqNum_int [code]

lemma moreRecentSeqNum_shift: "moreRecentSeqNum a b = moreRecentSeqNum (a - base) (b - base)"
proof -
  have "a - b = (a - base) - (b - base)" by simp
  moreover have "a \<noteq> b \<longleftrightarrow> a - base \<noteq> b - base" by simp
  ultimately show ?thesis
    unfolding moreRecentSeqNum_def by presburger
qed

lemma uint_less_half: "unat (x::u16) < 2 ^ 15 \<Longrightarrow> uint x < 32768"
  using unat_less_half [of x] by blast

lemma moreRecentSeqNum_near:
  assumes "unat (x::u16) < 2 ^ 15" "unat (y::u16) < 2 ^ 15"
  shows "moreRecentSeqNum x y \<longleftrightarrow> unat y < unat x"
proof -
  have x: "0 \<le> uint x" "uint x < 32768" and y: "0 \<le> uint y" "uint y < 32768"
    using assms uint_less_half by simp_all
  have u: "unat y < unat x \<longleftrightarrow> uint y < uint x"
    by (simp add: word_less_def [symmetric] word_less_nat_alt)
  have M: "moreRecentSeqNum x y \<longleftrightarrow> (uint x - uint y) mod 65536 < 32768 \<and> x \<noteq> y"
    by (rule moreRecentSeqNum_int)
  consider "uint y < uint x" | "uint y = uint x" | "uint x < uint y" by linarith
  then show ?thesis
  proof cases
    case 1
    have "(uint x - uint y) mod 65536 = uint x - uint y"
      using 1 x y by (intro mod_pos_pos_trivial) linarith+
    then have "(uint x - uint y) mod 65536 < 32768"
      using 1 x y by linarith
    moreover have "x \<noteq> y" using 1 by auto
    ultimately show ?thesis
      using 1 u M by blast
  next
    case 2
    then have "x = y" by (simp add: word_uint_eq_iff)
    then show ?thesis by (simp add: moreRecentSeqNum_irrefl)
  next
    case 3
    have "(uint x - uint y) mod 65536 = (uint x - uint y + 65536) mod 65536"
      by simp
    also have "\<dots> = uint x - uint y + 65536"
      using 3 x y by (intro mod_pos_pos_trivial) linarith+
    finally have "\<not> (uint x - uint y) mod 65536 < 32768"
      using 3 x y by linarith
    then show ?thesis
      using 3 u M by auto
  qed
qed

lemma moreRecentSeqNum_window:
  assumes "unat (a - base) < 2 ^ 15" "unat (b - base) < 2 ^ 15"
  shows "moreRecentSeqNum a b \<longleftrightarrow> unat (b - base) < unat (a - base)"
  using moreRecentSeqNum_near [OF assms] moreRecentSeqNum_shift [of a b base] by simp

lemma wfSent_new: "wfSent newSentBuffer"
  by (simp add: wfSent_iff newSentBuffer_def emptyExt_def)

lemma doSend_wfSent': "wfSent (m_sentPackets (fst st)) \<Longrightarrow> wfSent (m_sentPackets (fst (doSend p r st)))"
  by (cases st) (simp add: doSend_wfSent)

lemma wfSent_sentThree: "wfSent (m_sentPackets (fst sentThree))"
  unfolding sentThree_def
  by (intro doSend_wfSent') (simp add: newConnection_def wfSent_new)

lemma wfSent_sentFive: "wfSent (m_sentPackets (fst sentFive))"
  unfolding sentFive_def using wfSent_sentThree
  by (intro doSend_wfSent')

lemma sentThree_facts:
  "sentSeqNums (m_sentPackets (fst sentThree)) = [0, 1, 2]"
  "sentTimes (m_sentPackets (fst sentThree)) = [0, 0, 0]"
  "clock (snd sentThree) = 0"
  by code_simp+

lemma sentFive_facts:
  "sentSeqNums (m_sentPackets (fst sentFive)) = [0, 1, 2, 3, 4]"
  "sentTimes (m_sentPackets (fst sentFive)) = [0, 0, 0, 0, 0]"
  "clock (snd sentFive) = 0"
  "m_ackdCount (fst sentFive) = 0"
  by code_simp+

lemma ackedSeqNums_single: "ackedSeqNums \<lparr> latest = s, bits = 0 \<rparr> = [s]"
  by (simp add: ackedSeqNums_def)

lemma removeStale_oldest_kept:
  assumes wf: "wfSent (m_sentPackets c)"
    and s: "oldestSeqNum (m_sentPackets c) = Some s" "\<not> moreRecentSeqNum minSeqNum s"
    and tm: "\<forall>t \<in> set (sentTimes (m_sentPackets c)). minTime \<le> t"
  shows "removeStale minTime minSeqNum (c, io) = Some (c, io)"
proof -
  have ne: "\<not> sent_empty (m_sentPackets c)"
    using s(1) by (auto simp: sent_empty_iff oldestSeqNum_def)
  obtain t where t: "oldestTime (m_sentPackets c) = Some t" "t \<in> set (sentTimes (m_sentPackets c))"
    using oldestTime_least [OF ne] by blast
  have "\<not> minTime > t"
    using tm t(2) by auto
  with ne s t show ?thesis
    by (subst removeStale.simps) simp
qed

lemma forEach_confirm_effect:
  assumes "wfSent (m_sentPackets c)"
  shows "\<exists>c'. forEachSeqNum confirmPacketDelivery ss (c, io) = Some (c', io) \<and>
           wfSent (m_sentPackets c') \<and>
           (\<forall>s. contains s (m_sentPackets c') \<longleftrightarrow> s \<notin> set ss \<and> contains s (m_sentPackets c)) \<and>
           set (sentTimes (m_sentPackets c')) \<subseteq> set (sentTimes (m_sentPackets c)) \<and>
           (distinct ss \<and> (\<forall>s \<in> set ss. contains s (m_sentPackets c)) \<longrightarrow>
              m_ackdCount c' = m_ackdCount c + of_nat (length ss))"
  using assms
proof (induction ss arbitrary: c)
  case Nil
  then show ?case by simp
next
  case (Cons x ss)
  from confirmPacketDelivery_effect [OF Cons.prems, of x io]
  obtain c1 where 1: "confirmPacketDelivery x (c, io) = Some (c1, io)"
    and wf1: "wfSent (m_sentPackets c1)"
    and in1: "\<forall>s'. contains s' (m_sentPackets c1) \<longleftrightarrow> s' \<noteq> x \<and> contains s' (m_sentPackets c)"
    and t1: "set (sentTimes (m_sentPackets c1)) \<subseteq> set (sentTimes (m_sentPackets c))"
    and a1: "m_ackdCount c1 = m_ackdCount c + (if contains x (m_sentPackets c) then 1 else 0)"
    by blast
  from Cons.IH [OF wf1]
  obtain c' where 2: "forEachSeqNum confirmPacketDelivery ss (c1, io) = Some (c', io)"
    and wf2: "wfSent (m_sentPackets c')"
    and in2: "\<forall>s. contains s (m_sentPackets c') \<longleftrightarrow> s \<notin> set ss \<and> contains s (m_sentPackets c1)"
    and t2: "set (sentTimes (m_sentPackets c')) \<subseteq> set (sentTimes (m_sentPackets c1))"
    and a2: "distinct ss \<and> (\<forall>s \<in> set ss. contains s (m_sentPackets c1)) \<longrightarrow>
              m_ackdCount c' = m_ackdCount c1 + of_nat (length ss)"
    by blast
  have "forEachSeqNum confirmPacketDelivery (x # ss) (c, io) = Some (c', io)"
    using 1 2 by simp
  moreover have "\<forall>s. contains s (m_sentPackets c') \<longleftrightarrow> s \<notin> set (x # ss) \<and> contains s (m_sentPackets c)"
    using in1 in2 by auto
  moreover have "set (sentTimes (m_sentPackets c')) \<subseteq> set (sentTimes (m_sentPackets c))"
    using t1 t2 by blast
  moreover have "m_ackdCount c' = m_ackdCount c + of_nat (length (x # ss))"
    if "distinct (x # ss)" "\<forall>s \<in> set (x # ss). contains s (m_sentPackets c)"
  proof -
    have "\<forall>s \<in> set ss. contains s (m_sentPackets c1)"
      using that in1 by auto
    with a2 that have "m_ackdCount c' = m_ackdCount c1 + of_nat (length ss)" by simp
    with a1 that show ?thesis by simp
  qed
  ultimately show ?case
    using wf2 by blast
qed

lemma processPeerAcks_nothing_stale:
  assumes wf: "wfSent (m_sentPackets c)"
    and fresh: "\<forall>t \<in> set (sentTimes (m_sentPackets c)). clock io - 2000 \<le> t"
    and rest: "\<forall>s. contains s (m_sentPackets c) \<and> s \<notin> set (ackedSeqNums a) \<longrightarrow>
                 \<not> moreRecentSeqNum (latest a - 256) s"
  shows "\<exists>c'. processPeerAcks a (c, io) = Some (c', io) \<and>
           (\<forall>s. contains s (m_sentPackets c') \<longleftrightarrow>
                 s \<notin> set (ackedSeqNums a) \<and> contains s (m_sentPackets c)) \<and>
           wfSent (m_sentPackets c') \<and>
           (distinct (ackedSeqNums a) \<and> (\<forall>s \<in> set (ackedSeqNums a). contains s (m_sentPackets c)) \<longrightarrow>
              m_ackdCount c' = m_ackdCount c + of_nat (length (ackedSeqNums a)))"
proof -
  from forEach_confirm_effect [OF wf, of "ackedSeqNums a" io]
  obtain c' where 1: "forEachSeqNum confirmPacketDelivery (ackedSeqNums a) (c, io) = Some (c', io)"
    and wf': "wfSent (m_sentPackets c')"
    and in': "\<forall>s. contains s (m_sentPackets c') \<longleftrightarrow> s \<notin> set (ackedSeqNums a) \<and> contains s (m_sentPackets c)"
    and t': "set (sentTimes (m_sentPackets c')) \<subseteq> set (sentTimes (m_sentPackets c))"
    and a': "distinct (ackedSeqNums a) \<and> (\<forall>s \<in> set (ackedSeqNums a). contains s (m_sentPackets c)) \<longrightarrow>
              m_ackdCount c' = m_ackdCount c + of_nat (length (ackedSeqNums a))"
    by blast
  have "removeStale (clock io - 2000) (latest a - 256) (c', io) = Some (c', io)"
  proof (rule removeStale_nothing_stale [OF wf'])
    show "\<forall>s. contains s (m_sentPackets c') \<longrightarrow> \<not> moreRecentSeqNum (latest a - 256) s"
      using in' rest by blast
    show "\<forall>t \<in> set (sentTimes (m_sentPackets c')). clock io - 2000 \<le> t"
      using t' fresh by blast
  qed
  with 1 have "processPeerAcks a (c, io) = Some (c', io)"
    by (simp add: processPeerAcks_def forEachAckedSeqNum_def)
  with in' wf' a' show ?thesis by blast
qed

lemma acked_4_5: "ackedSeqNums \<lparr> latest = 4, bits = 5 \<rparr> = [4, 3, 1]"
  by code_simp

lemma acked_4_10: "ackedSeqNums \<lparr> latest = 4, bits = 10 \<rparr> = [4, 2, 0]"
  by code_simp

lemma not_behind_window:
  "\<not> moreRecentSeqNum (4 - 256) 0" "\<not> moreRecentSeqNum (4 - 256) 1"
  "\<not> moreRecentSeqNum (4 - 256) 2" "\<not> moreRecentSeqNum (4 - 256) 3"
  "\<not> moreRecentSeqNum (4 - 256) 4"
  by (simp_all add: moreRecentSeqNum_int)

lemma processPeerAcks_of_five:
  assumes wf: "wfSent (m_sentPackets c)"
    and sent: "set (sentSeqNums (m_sentPackets c)) = {0, 1, 2, 3, 4}"
    and fresh: "\<forall>t \<in> set (sentTimes (m_sentPackets c)). clock io - 2000 \<le> t"
    and l: "latest a = 4" and d: "distinct (ackedSeqNums a)"
    and sub: "set (ackedSeqNums a) \<subseteq> {0, 1, 2, 3, 4}"
  shows "\<exists>c'. processPeerAcks a (c, io) = Some (c', io) \<and>
           set (sentSeqNums (m_sentPackets c')) = {0, 1, 2, 3, 4} - set (ackedSeqNums a) \<and>
           m_ackdCount c' = m_ackdCount c + of_nat (length (ackedSeqNums a))"
proof -
  have c: "contains s (m_sentPackets c) \<longleftrightarrow> s \<in> {0, 1, 2, 3, 4}" for s
    using sent by (simp add: wfSent_contains_iff [OF wf])
  have rest: "\<forall>s. contains s (m_sentPackets c) \<and> s \<notin> set (ackedSeqNums a) \<longrightarrow>
                 \<not> moreRecentSeqNum (latest a - 256) s"
    unfolding c l using not_behind_window by blast
  have all: "distinct (ackedSeqNums a) \<and> (\<forall>s \<in> set (ackedSeqNums a). contains s (m_sentPackets c))"
    unfolding c using d sub by blast
  from processPeerAcks_nothing_stale [OF wf fresh rest] all
  obtain c' where 1: "processPeerAcks a (c, io) = Some (c', io)"
    and in1: "\<forall>s. contains s (m_sentPackets c') \<longleftrightarrow>
                 s \<notin> set (ackedSeqNums a) \<and> contains s (m_sentPackets c)"
    and wf1: "wfSent (m_sentPackets c')"
    and a1: "m_ackdCount c' = m_ackdCount c + of_nat (length (ackedSeqNums a))"
    by blast
  have "s \<in> set (sentSeqNums (m_sentPackets c')) \<longleftrightarrow> s \<in> {0, 1, 2, 3, 4} - set (ackedSeqNums a)" for s
    using in1 c wfSent_contains_iff [OF wf1, of s] by blast
  then have "set (sentSeqNums (m_sentPackets c')) = {0, 1, 2, 3, 4} - set (ackedSeqNums a)"
    by blast
  with 1 a1 show ?thesis by blast
qed

lemma diff_0101: "{0, 1, 2, 3, 4} - set [4, 3, 1 :: u16] = {0, 2}"
  by auto

lemma diff_1010: "{0, 1, 2, 3, 4} - set [4, 2, 0 :: u16] = {1, 3}"
  by auto

section \<open>Processing a peer's ack\<close>

text \<open>
  Claim C1, as stated, fails. With the covering rule the claim gives (bit k-1 stands for
  \<open>latest - k\<close>), the ack \<open>(latest = 4, bits = 0b0101)\<close> covers 4, 3 and 1. On a
  connection that has just sent seqnums 0..4, processing it leaves the seqnums 0 and 2 in
  the sent buffer, not 1 and 3.
\<close>

theorem ack_4_0101_does_not_leave_1_and_3:
  "map_option (set \<circ> sentSeqNums \<circ> m_sentPackets \<circ> fst)
     (processPeerAcks \<lparr> latest = 4, bits = 5 \<rparr> sentFive) = Some {0, 2} \<and>
   map_option (set \<circ> sentSeqNums \<circ> m_sentPackets \<circ> fst)
     (processPeerAcks \<lparr> latest = 4, bits = 5 \<rparr> sentFive) \<noteq> Some {1, 3}"
proof -
  have "\<exists>c'. processPeerAcks \<lparr> latest = 4, bits = 5 \<rparr> (fst sentFive, snd sentFive) = Some (c', snd sentFive) \<and>
           set (sentSeqNums (m_sentPackets c')) = {0, 1, 2, 3, 4} - set (ackedSeqNums \<lparr> latest = 4, bits = 5 \<rparr>) \<and>
           m_ackdCount c' = m_ackdCount (fst sentFive) + of_nat (length (ackedSeqNums \<lparr> latest = 4, bits = 5 \<rparr>))"
    by (rule processPeerAcks_of_five [OF wfSent_sentFive])
       (simp_all add: acked_4_5 sentFive_facts insert_commute)
  then obtain c' where "processPeerAcks \<lparr> latest = 4, bits = 5 \<rparr> sentFive = Some (c', snd sentFive)"
    and "set (sentSeqNums (m_sentPackets c')) = {0, 2}"
    unfolding acked_4_5 diff_0101 by auto
  moreover have "{0, 2} \<noteq> {1, 3 :: u16}"
  proof
    assume "{0, 2} = {1, 3 :: u16}"
    then have "(0::u16) \<in> {1, 3}" by blast
    then show False by simp
  qed
  ultimately show ?thesis
    by simp
qed

text \<open>
  Claim C1, amended. For a connection whose sent buffer holds exactly the seqnums 0..4,
  all within the 2-second age window, processing a peer ack with \<open>latest = 4\<close> and
  \<open>bits = 0b0101\<close> (which covers 4, 3 and 1) leaves the sent buffer containing only
  the seqnums 0 and 2 and increases \<open>ackdCount\<close> by 3. The ack of 0, 2 and 4 is
  \<open>bits = 0b1010\<close>; it leaves only 1 and 3 and increases \<open>ackdCount\<close> by 3.
\<close>

theorem ack_4_0101_leaves_0_and_2:
  assumes wf: "wfSent (m_sentPackets c)"
    and sent: "set (sentSeqNums (m_sentPackets c)) = {0, 1, 2, 3, 4}"
    and fresh: "\<forall>t \<in> set (sentTimes (m_sentPackets c)). clock io - 2000 \<le> t"
  shows "(\<exists>c'. processPeerAcks \<lparr> latest = 4, bits = 5 \<rparr> (c, io) = Some (c', io) \<and>
            ackedSeqNums \<lparr> latest = 4, bits = 5 \<rparr> = [4, 3, 1] \<and>
            set (sentSeqNums (m_sentPackets c')) = {0, 2} \<and>
            m_ackdCount c' = m_ackdCount c + 3)
       \<and> (\<exists>c'. processPeerAcks \<lparr> latest = 4, bits = 10 \<rparr> (c, io) = Some (c', io) \<and>
            ackedSeqNums \<lparr> latest = 4, bits = 10 \<rparr> = [4, 2, 0] \<and>
            set (sentSeqNums (m_sentPackets c')) = {1, 3} \<and>
            m_ackdCount c' = m_ackdCount c + 3)"
proof
  have "\<exists>c'. processPeerAcks \<lparr> latest = 4, bits = 5 \<rparr> (c, io) = Some (c', io) \<and>
           set (sentSeqNums (m_sentPackets c')) = {0, 1, 2, 3, 4} - set (ackedSeqNums \<lparr> latest = 4, bits = 5 \<rparr>) \<and>
           m_ackdCount c' = m_ackdCount c + of_nat (length (ackedSeqNums \<lparr> latest = 4, bits = 5 \<rparr>))"
    by (rule processPeerAcks_of_five [OF wf sent fresh]) (simp_all add: acked_4_5)
  then show "\<exists>c'. processPeerAcks \<lparr> latest = 4, bits = 5 \<rparr> (c, io) = Some (c', io) \<and>
            ackedSeqNums \<lparr> latest = 4, bits = 5 \<rparr> = [4, 3, 1] \<and>
            set (sentSeqNums (m_sentPackets c')) = {0, 2} \<and>
            m_ackdCount c' = m_ackdCount c + 3"
    unfolding acked_4_5 diff_0101 by simp
next
  have "\<exists>c'. processPeerAcks \<lparr> latest = 4, bits = 10 \<rparr> (c, io) = Some (c', io) \<and>
           set (sentSeqNums (m_sentPackets c')) = {0, 1, 2, 3, 4} - set (ackedSeqNums \<lparr> latest = 4, bits = 10 \<rparr>) \<and>
           m_ackdCount c' = m_ackdCount c + of_nat (length (ackedSeqNums \<lparr> latest = 4, bits = 10 \<rparr>))"
    by (rule processPeerAcks_of_five [OF wf sent fresh]) (simp_all add: acked_4_10)
  then show "\<exists>c'. processPeerAcks \<lparr> latest = 4, bits = 10 \<rparr> (c, io) = Some (c', io) \<and>
            ackedSeqNums \<lparr> latest = 4, bits = 10 \<rparr> = [4, 2, 0] \<and>
            set (sentSeqNums (m_sentPackets c')) = {1, 3} \<and>
            m_ackdCount c' = m_ackdCount c + 3"
    unfolding acked_4_10 diff_1010 by simp
qed

theorem ack_4_0101_leaves_0_and_2_witness:
  "wfSent (m_sentPackets (fst sentFive)) \<and>
   set (sentSeqNums (m_sentPackets (fst sentFive))) = {0, 1, 2, 3, 4} \<and>
   (\<exists>c'. processPeerAcks \<lparr> latest = 4, bits = 5 \<rparr> sentFive = Some (c', snd sentFive) \<and>
         set (sentSeqNums (m_sentPackets c')) = {0, 2} \<and> m_ackdCount c' = 3) \<and>
   (\<exists>c'. processPeerAcks \<lparr> latest = 4, bits = 10 \<rparr> sentFive = Some (c', snd sentFive) \<and>
         set (sentSeqNums (m_sentPackets c')) = {1, 3} \<and> m_ackdCount c' = 3)"
  using ack_4_0101_leaves_0_and_2 [of "fst sentFive" "snd sentFive"] wfSent_sentFive
  by (simp add: sentFive_facts insert_commute acked_4_5 acked_4_10)

text \<open>
  Claim C5, as stated, fails: the loop looks at the oldest entry only. After three sends
  (seqnums 0, 1, 2) a peer ack with \<open>latest = 33025\<close> changes nothing, because the
  oldest seqnum 0 is not circularly less than \<open>33025 - 256 = 32769\<close>; yet the entry 2,
  which is circularly less than 32769, is still in the buffer.
\<close>

theorem stale_entry_behind_oldest_remains:
  "processPeerAcks \<lparr> latest = 33025, bits = 0 \<rparr> sentThree = Some sentThree \<and>
   contains 2 (m_sentPackets (fst sentThree)) \<and>
   moreRecentSeqNum (latest \<lparr> latest = 33025, bits = 0 \<rparr> - 256) 2"
proof -
  have c: "contains s (m_sentPackets (fst sentThree)) \<longleftrightarrow> s \<in> {0, 1, 2}" for s
    by (simp add: wfSent_contains_iff [OF wfSent_sentThree] sentThree_facts)
  have "confirmPacketDelivery 33025 (fst sentThree, snd sentThree) = Some (fst sentThree, snd sentThree)"
    by (rule confirmPacketDelivery_absent) (simp add: c)
  then have 1: "forEachAckedSeqNum confirmPacketDelivery \<lparr> latest = 33025, bits = 0 \<rparr> sentThree = Some sentThree"
    by (simp add: forEachAckedSeqNum_def ackedSeqNums_single)
  have o: "oldestSeqNum (m_sentPackets (fst sentThree)) = Some 0"
    by (simp add: oldestSeqNum_def sentThree_facts moreRecentSeqNum_int)
  have "removeStale (clock (snd sentThree) - 2000) (33025 - 256) (fst sentThree, snd sentThree)
          = Some (fst sentThree, snd sentThree)"
    by (rule removeStale_oldest_kept [OF wfSent_sentThree o])
       (simp_all add: moreRecentSeqNum_int sentThree_facts)
  with 1 have "processPeerAcks \<lparr> latest = 33025, bits = 0 \<rparr> sentThree = Some sentThree"
    by (simp add: processPeerAcks_def)
  moreover have "moreRecentSeqNum (33025 - 256) 2"
    by (simp add: moreRecentSeqNum_int)
  ultimately show ?thesis
    by (simp add: c)
qed

lemma oldestOf_min:
  assumes "\<forall>x \<in> set (c # cs). unat (x - base) < 2 ^ 15"
  shows "\<forall>x \<in> set (c # cs). unat (oldestOf c cs - base) \<le> unat (x - base)"
  using assms
proof (induction cs arbitrary: c)
  case Nil
  then show ?case by simp
next
  case (Cons x xs)
  define c' where "c' = (if moreRecentSeqNum c x then x else c)"
  have wc: "unat (c - base) < 2 ^ 15" and wx: "unat (x - base) < 2 ^ 15"
    using Cons.prems by simp_all
  have m: "moreRecentSeqNum c x \<longleftrightarrow> unat (x - base) < unat (c - base)"
    by (rule moreRecentSeqNum_window [OF wc wx])
  have k: "unat (c' - base) \<le> unat (c - base)" "unat (c' - base) \<le> unat (x - base)"
    using m by (auto simp: c'_def)
  have "\<forall>y \<in> set (c' # xs). unat (y - base) < 2 ^ 15"
    using Cons.prems by (auto simp: c'_def)
  from Cons.IH [OF this]
  have ih: "\<forall>y \<in> set (c' # xs). unat (oldestOf c' xs - base) \<le> unat (y - base)" .
  have r: "oldestOf c (x # xs) = oldestOf c' xs"
    by (simp add: c'_def)
  have "unat (oldestOf c' xs - base) \<le> unat (c' - base)"
    using ih by simp
  with k ih show ?case
    unfolding r by auto
qed

lemma oldestNotStale_none_behind:
  assumes ex: "oldestNotStale minTime minSeqNum buf"
    and w: "inWindow base (minSeqNum # sentSeqNums buf)"
  shows "\<forall>s \<in> set (sentSeqNums buf). \<not> moreRecentSeqNum minSeqNum s"
proof (cases "sentSeqNums buf")
  case Nil
  then show ?thesis by simp
next
  case (Cons c cs)
  then have ne: "\<not> sent_empty buf"
    by (simp add: sent_empty_iff)
  with ex obtain ol where ol: "oldestSeqNum buf = Some ol" "\<not> moreRecentSeqNum minSeqNum ol"
    unfolding oldestNotStale_def by blast
  with Cons have oeq: "ol = oldestOf c cs"
    by (simp add: oldestSeqNum_def)
  have wm: "unat (minSeqNum - base) < 2 ^ 15"
    and wall: "\<forall>x \<in> set (c # cs). unat (x - base) < 2 ^ 15"
    using w Cons by (simp_all add: inWindow_def list_all_iff)
  have mn: "\<forall>x \<in> set (c # cs). unat (ol - base) \<le> unat (x - base)"
    unfolding oeq by (rule oldestOf_min [OF wall])
  have wo: "unat (ol - base) < 2 ^ 15"
    using wall oldestOf_in [of c cs] oeq by blast
  have "\<not> unat (ol - base) < unat (minSeqNum - base)"
    using ol(2) moreRecentSeqNum_window [OF wm wo] by simp
  then have le: "unat (minSeqNum - base) \<le> unat (ol - base)" by simp
  show ?thesis
  proof
    fix s assume s: "s \<in> set (sentSeqNums buf)"
    then have sc: "s \<in> set (c # cs)" using Cons by simp
    have "unat (ol - base) \<le> unat (s - base)" and ws: "unat (s - base) < 2 ^ 15"
      using mn wall sc by blast+
    with le have "\<not> unat (s - base) < unat (minSeqNum - base)" by simp
    then show "\<not> moreRecentSeqNum minSeqNum s"
      using moreRecentSeqNum_window [OF wm ws] by simp
  qed
qed

lemma processPeerAcks_sentFive:
  "map_option (sentSeqNums \<circ> m_sentPackets \<circ> fst)
     (processPeerAcks \<lparr> latest = 258, bits = 0 \<rparr> sentFive) = Some [2, 3, 4]"
  "Option.bind (forEachAckedSeqNum confirmPacketDelivery \<lparr> latest = 258, bits = 0 \<rparr> sentFive)
     (forEachSeqNum removeUndeliveredPacket [0, 1]) =
   processPeerAcks \<lparr> latest = 258, bits = 0 \<rparr> sentFive"
  by code_simp+

text \<open>
  Claim C5, amended. On a well-formed sent buffer \<open>processPeerAcks(peerAck)\<close> returns,
  and then: no entry of the sent buffer has a timestamp more than 2 seconds before the
  current time; the buffer is empty or its oldest seqnum is not circularly less than
  \<open>peerAck - 256\<close>; if the seqnums then in the buffer and \<open>peerAck - 256\<close> all lie less
  than \<open>2^15\<close> ahead of one common seqnum \<open>base\<close>, no entry has a seqnum circularly
  less than \<open>peerAck - 256\<close>; and the state is the one reached from the state after the
  confirmations by calls of \<open>removeUndeliveredPacket\<close> only.
\<close>

theorem processPeerAcks_leaves_nothing_stale:
  assumes wf: "wfSent (m_sentPackets c)"
  shows "\<exists>c' io'. processPeerAcks peerAck (c, io) = Some (c', io') \<and>
           (\<forall>t \<in> set (sentTimes (m_sentPackets c')). clock io - 2000 \<le> t) \<and>
           oldestNotStale (clock io - 2000) (latest peerAck - 256) (m_sentPackets c') \<and>
           (inWindow base ((latest peerAck - 256) # sentSeqNums (m_sentPackets c')) \<longrightarrow>
              (\<forall>s \<in> set (sentSeqNums (m_sentPackets c')).
                 \<not> moreRecentSeqNum (latest peerAck - 256) s)) \<and>
           (\<exists>st1 ss. forEachAckedSeqNum confirmPacketDelivery peerAck (c, io) = Some st1 \<and>
                     forEachSeqNum removeUndeliveredPacket ss st1 = Some (c', io'))"
proof -
  obtain c1 where c1: "forEachAckedSeqNum confirmPacketDelivery peerAck (c, io) = Some (c1, io)"
    and wf1: "wfSent (m_sentPackets c1)"
    using forEach_confirm_returns [OF wf, of "ackedSeqNums peerAck" io]
    by (auto simp: forEachAckedSeqNum_def)
  obtain st' where st': "removeStale (clock io - 2000) (latest peerAck - 256) (c1, io) = Some st'"
    using removeStale_returns [of "(c1, io)" "clock io - 2000" "latest peerAck - 256"] wf1 by auto
  have p: "processPeerAcks peerAck (c, io) = Some (fst st', snd st')"
    using c1 st' by (simp add: processPeerAcks_def)
  from removeStale_exit [OF st'] obtain ss where
    ex: "oldestNotStale (clock io - 2000) (latest peerAck - 256) (m_sentPackets (fst st'))"
    and ss: "forEachSeqNum removeUndeliveredPacket ss (c1, io) = Some (fst st', snd st')"
    by auto
  have t: "\<forall>t \<in> set (sentTimes (m_sentPackets (fst st'))). clock io - 2000 \<le> t"
    by (rule oldestNotStale_times [OF ex])
  have n: "inWindow base ((latest peerAck - 256) # sentSeqNums (m_sentPackets (fst st'))) \<longrightarrow>
             (\<forall>s \<in> set (sentSeqNums (m_sentPackets (fst st'))).
                \<not> moreRecentSeqNum (latest peerAck - 256) s)"
    using oldestNotStale_none_behind [OF ex] by blast
  have ch: "\<exists>st1 ss. forEachAckedSeqNum confirmPacketDelivery peerAck (c, io) = Some st1 \<and>
                     forEachSeqNum removeUndeliveredPacket ss st1 = Some (fst st', snd st')"
    using c1 ss by blast
  show ?thesis
    by (intro exI [of _ "fst st'"] exI [of _ "snd st'"] conjI) (rule p t ex n ch)+
qed

text \<open>
  The amended claim C5 after five sends (seqnums 0 to 4) and a peer ack with
  \<open>latest = 258\<close>: the loop passes the entries 0 and 1, which are behind
  \<open>258 - 256 = 2\<close>, to \<open>removeUndeliveredPacket\<close>, and the entries 2, 3, 4 remain.
\<close>

theorem processPeerAcks_leaves_nothing_stale_witness:
  "wfSent (m_sentPackets (fst sentFive)) \<and>
   sentSeqNums (m_sentPackets (fst sentFive)) = [0, 1, 2, 3, 4] \<and>
   (\<exists>c' io'. processPeerAcks \<lparr> latest = 258, bits = 0 \<rparr> sentFive = Some (c', io') \<and>
      sentSeqNums (m_sentPackets c') = [2, 3, 4] \<and>
      inWindow 2 ((258 - 256) # sentSeqNums (m_sentPackets c')) \<and>
      list_all (\<lambda>s. \<not> moreRecentSeqNum (258 - 256) s) (sentSeqNums (m_sentPackets c')) \<and>
      list_all (\<lambda>t. clock (snd sentFive) - 2000 \<le> t) (sentTimes (m_sentPackets c')) \<and>
      (\<exists>st1. forEachAckedSeqNum confirmPacketDelivery \<lparr> latest = 258, bits = 0 \<rparr> sentFive = Some st1 \<and>
             forEachSeqNum removeUndeliveredPacket [0, 1] st1 = Some (c', io')))"
proof -
  from processPeerAcks_leaves_nothing_stale
         [OF wfSent_sentFive, of "\<lparr> latest = 258, bits = 0 \<rparr>" "snd sentFive" 2]
  obtain c' io' where
    p: "processPeerAcks \<lparr> latest = 258, bits = 0 \<rparr> sentFive = Some (c', io')" and
    t: "\<forall>t \<in> set (sentTimes (m_sentPackets c')). clock (snd sentFive) - 2000 \<le> t" and
    n: "inWindow 2 ((258 - 256) # sentSeqNums (m_sentPackets c')) \<longrightarrow>
          (\<forall>s \<in> set (sentSeqNums (m_sentPackets c')). \<not> moreRecentSeqNum (258 - 256) s)"
    by auto
  have s: "sentSeqNums (m_sentPackets c') = [2, 3, 4]"
    using processPeerAcks_sentFive(1) p by simp
  have w: "inWindow 2 ((258 - 256) # sentSeqNums (m_sentPackets c'))"
    unfolding s by (simp add: inWindow_def)
  with n have nb: "list_all (\<lambda>s. \<not> moreRecentSeqNum (258 - 256) s) (sentSeqNums (m_sentPackets c'))"
    by (simp only: list_all_iff) blast
  have tt: "list_all (\<lambda>t. clock (snd sentFive) - 2000 \<le> t) (sentTimes (m_sentPackets c'))"
    using t by (simp only: list_all_iff)
  have ch: "\<exists>st1. forEachAckedSeqNum confirmPacketDelivery \<lparr> latest = 258, bits = 0 \<rparr> sentFive = Some st1 \<and>
             forEachSeqNum removeUndeliveredPacket [0, 1] st1 = Some (c', io')"
    using processPeerAcks_sentFive(2) p by (auto simp: bind_eq_Some_conv)
  show ?thesis
    by (intro conjI exI [of _ c'] exI [of _ io'])
       (rule wfSent_sentFive sentFive_facts(1) p s w nb tt ch)+
qed

section \<open>The handlers keep the sent buffer well formed\<close>

lemma removeUndeliveredPacket_wfSent:
  assumes wf: "wfSent (m_sentPackets c)"
    and r: "removeUndeliveredPacket s (c, io) = Some (c', io')"
  shows "wfSent (m_sentPackets c')"
proof (cases "contains s (m_sentPackets c)")
  case False
  with r wf show ?thesis by (simp add: removeUndeliveredPacket_absent)
next
  case True
  from removeUndeliveredPacket_step [OF wf True, of io] r show ?thesis by auto
qed

lemma confirmPacketDelivery_wfSent:
  assumes wf: "wfSent (m_sentPackets c)"
    and r: "confirmPacketDelivery s (c, io) = Some (c', io')"
  shows "wfSent (m_sentPackets c')"
  using confirmPacketDelivery_effect [OF wf, of s io] r by auto

lemma forEachSeqNum_wfSent:
  assumes step: "\<And>s c io c' io'. wfSent (m_sentPackets c) \<Longrightarrow> f s (c, io) = Some (c', io') \<Longrightarrow>
                   wfSent (m_sentPackets c')"
    and wf: "wfSent (m_sentPackets c)"
    and r: "forEachSeqNum f ss (c, io) = Some (c', io')"
  shows "wfSent (m_sentPackets c')"
  using wf r
proof (induction ss arbitrary: c io)
  case Nil
  then show ?case by simp
next
  case (Cons s ss)
  from Cons.prems(2) obtain c1 io1 where 1: "f s (c, io) = Some (c1, io1)"
    and 2: "forEachSeqNum f ss (c1, io1) = Some (c', io')"
    by (auto split: option.splits)
  from Cons.IH [OF step [OF Cons.prems(1) 1] 2] show ?case .
qed

lemma processPeerAcks_wfSent:
  assumes wf: "wfSent (m_sentPackets c)"
    and r: "processPeerAcks a (c, io) = Some (c', io')"
  shows "wfSent (m_sentPackets c')"
proof -
  from r obtain c1 io1 where 1: "forEachSeqNum confirmPacketDelivery (ackedSeqNums a) (c, io) = Some (c1, io1)"
    and 2: "removeStale (clock io1 - 2000) (latest a - 256) (c1, io1) = Some (c', io')"
    by (auto simp: processPeerAcks_def forEachAckedSeqNum_def split: option.splits)
  have m: "wfSent (m_sentPackets c1)"
    by (rule forEachSeqNum_wfSent [OF confirmPacketDelivery_wfSent wf 1])
  from removeStale_exit [OF 2] obtain ss where
    3: "forEachSeqNum removeUndeliveredPacket ss (c1, io1) = Some (c', io')"
    by blast
  show ?thesis
    by (rule forEachSeqNum_wfSent [OF removeUndeliveredPacket_wfSent m 3])
qed

lemma handleSend_wfSent:
  assumes wf: "wfSent (m_sentPackets c)"
    and r: "handleSend p err (c, io) = Some (c', io')"
  shows "wfSent (m_sentPackets c')"
proof (cases "err = 0")
  case True
  with r wf show ?thesis by (simp add: handleSend_def)
next
  case False
  with r have "removeUndeliveredPacket (seqNum (header p))
      (c, io \<lparr> notified := notified io @ [OnError (m_peer c) err] \<rparr>) = Some (c', io')"
    by (simp add: handleSend_def)
  from removeUndeliveredPacket_wfSent [OF wf this] show ?thesis .
qed

lemma handleReceive_wfSent:
  assumes wf: "wfSent (m_sentPackets c)"
    and r: "handleReceive p (c, io) = Some (c', io')"
  shows "wfSent (m_sentPackets c')"
proof -
  define c0 where "c0 = c \<lparr> m_recvTime := clock io, m_recvCount := m_recvCount c + 1,
                             m_ack := updateForSeqNum (seqNum (header p)) (m_ack c) \<rparr>"
  from r obtain c1 where 1: "processPeerAcks (ack (header p)) (c0, io) = Some (c1, io')"
    and 2: "m_sentPackets c' = m_sentPackets c1"
    by (auto simp: handleReceive_def c0_def recv_insert_def Let_def split: option.splits)
  have wf0: "wfSent (m_sentPackets c0)"
    using wf by (simp add: c0_def)
  from processPeerAcks_wfSent [OF wf0 1] 2 show ?thesis by simp
qed

lemma step_wfSent:
  assumes wf: "wfSent (m_sentPackets c)"
    and r: "step e (c, io) = Some (c', io')"
  shows "wfSent (m_sentPackets c')"
proof (cases e)
  case (AppSend p k)
  with r wf show ?thesis by (auto simp: asyncSend_def)
next
  case RunJob
  show ?thesis
  proof (cases "posted io")
    case Nil
    with r RunJob wf show ?thesis by simp
  next
    case (Cons job rest)
    obtain peer p k where job: "job = (peer, p, k)" by (cases job)
    from r RunJob Cons job have "(c', io') = doSend p k (c, io \<lparr> posted := rest \<rparr>)"
      by simp
    then have "c' = fst (doSend p k (c, io \<lparr> posted := rest \<rparr>))" by (metis fst_conv)
    then show ?thesis by (simp add: doSend_wfSent [OF wf])
  qed
next
  case (SendDone p err)
  with r have "handleSend p err (c, io) = Some (c', io')" by simp
  from handleSend_wfSent [OF wf this] show ?thesis .
next
  case (Receive p)
  with r have "handleReceive p (c, io) = Some (c', io')" by simp
  from handleReceive_wfSent [OF wf this] show ?thesis .
next
  case (Tick d)
  with r wf show ?thesis by auto
next
  case Dispatch
  with r have "m_sentPackets c' = m_sentPackets c"
    by (auto simp: dispatchReceivedPackets_def split: prod.splits)
  with wf show ?thesis by simp
qed

lemma processPeerAcks_returns:
  assumes "wfSent (m_sentPackets c)"
  shows "\<exists>st'. processPeerAcks a (c, io) = Some st'"
proof -
  obtain c1 where c1: "forEachSeqNum confirmPacketDelivery (ackedSeqNums a) (c, io) = Some (c1, io)"
    and wf1: "wfSent (m_sentPackets c1)"
    using forEach_confirm_returns [OF assms, of "ackedSeqNums a" io] by blast
  obtain st' where "removeStale (clock io - 2000) (latest a - 256) (c1, io) = Some st'"
    using removeStale_returns [of "(c1, io)" "clock io - 2000" "latest a - 256"] wf1 by auto
  with c1 show ?thesis
    by (simp add: processPeerAcks_def forEachAckedSeqNum_def)
qed

lemma step_returns:
  assumes "wfSent (m_sentPackets c)"
  shows "\<exists>st'. step e (c, io) = Some st'"
proof (cases e)
  case (SendDone p err)
  show ?thesis
  proof (cases "err = 0")
    case True
    with SendDone show ?thesis by (simp add: handleSend_def)
  next
    case False
    with SendDone show ?thesis
      using removeUndeliveredPacket_returns [of "seqNum (header p)" c
          "io \<lparr> notified := notified io @ [OnError (m_peer c) err] \<rparr>"]
      by (auto simp: handleSend_def)
  qed
next
  case (Receive p)
  define c0 where "c0 = c \<lparr> m_recvTime := clock io, m_recvCount := m_recvCount c + 1,
                             m_ack := updateForSeqNum (seqNum (header p)) (m_ack c) \<rparr>"
  have "wfSent (m_sentPackets c0)"
    using assms by (simp add: c0_def)
  from processPeerAcks_returns [OF this, of "ack (header p)" io]
  obtain st1 where "processPeerAcks (ack (header p)) (c0, io) = Some st1" by blast
  with Receive show ?thesis
    by (cases st1) (simp add: handleReceive_def c0_def recv_insert_def Let_def)
qed (auto split: list.splits)

lemma run_returns:
  assumes "wfSent (m_sentPackets c)"
  shows "\<exists>st'. run evs (c, io) = Some st'"
  using assms
proof (induction evs arbitrary: c io)
  case Nil
  then show ?case by simp
next
  case (Cons e evs)
  from step_returns [OF Cons.prems, of e io]
  obtain c1 io1 where 1: "step e (c, io) = Some (c1, io1)" by auto
  have "wfSent (m_sentPackets c1)"
    by (rule step_wfSent [OF Cons.prems 1])
  from Cons.IH [OF this, of io1] 1 show ?case by simp
qed

section \<open>Resend budgets\<close>

lemma sum_list_single:
  fixes f :: "'a \<Rightarrow> nat"
  assumes "i < length xs" "\<forall>j < length xs. j \<noteq> i \<longrightarrow> f (xs ! j) = 0"
  shows "sum_list (map f xs) = f (xs ! i)"
  using assms
proof (induction xs arbitrary: i)
  case Nil
  then show ?case by simp
next
  case (Cons x xs)
  show ?case
  proof (cases i)
    case 0
    have "\<forall>y \<in> set xs. f y = 0"
    proof
      fix y assume "y \<in> set xs"
      then obtain j where "j < length xs" "xs ! j = y" by (auto simp: in_set_conv_nth)
      with Cons.prems(2) [rule_format, of "Suc j"] 0 show "f y = 0" by simp
    qed
    then have "sum_list (map f xs) = 0" by simp
    with 0 show ?thesis by simp
  next
    case (Suc n)
    have "f x = 0"
      using Cons.prems(2) [rule_format, of 0] Suc by simp
    moreover have "sum_list (map f xs) = f (xs ! n)"
    proof (rule Cons.IH)
      show "n < length xs" using Cons.prems(1) Suc by simp
      show "\<forall>j < length xs. j \<noteq> n \<longrightarrow> f (xs ! j) = 0"
      proof (intro allI impI)
        fix j assume "j < length xs" "j \<noteq> n"
        with Cons.prems(2) [rule_format, of "Suc j"] Suc show "f (xs ! j) = 0" by simp
      qed
    qed
    ultimately show ?thesis using Suc by simp
  qed
qed

lemma pendingResendsP_le: "pendingResendsP a io \<le> budgetPostedP a io"
proof -
  have "length (filter (\<lambda>job. fst (snd job) = a) js) \<le> sum_list (map (jobBudgetP a) js)" for js
    by (induction js) (auto simp: jobBudgetP_def)
  then show ?thesis
    by (simp add: pendingResendsP_def budgetPostedP_def)
qed

lemma storeP_eq:
  "storeP now a r ackNow buf h =
     (slotsP buf ! (unat (nextSeqNumP buf) mod sentCapacity),
      buf \<lparr> slotsP := (slotsP buf)[unat (nextSeqNumP buf) mod sentCapacity :=
               \<lparr> packetP = Some a, resendLimitP = r, timestampP = now \<rparr>],
            nextSeqNumP := nextSeqNumP buf + 1 \<rparr>,
      h (a := (h a) \<lparr> header := (header (h a)) \<lparr> seqNum := nextSeqNumP buf, ack := ackNow \<rparr> \<rparr>))"
  by (simp add: storeP_def Let_def)

lemma releaseP_eq:
  assumes "releaseP s buf h = Some (e, b')"
  shows "e = slotsP buf ! (unat s mod sentCapacity)"
    and "b' = buf \<lparr> slotsP := (slotsP buf)[unat s mod sentCapacity := emptyExtP] \<rparr>"
    and "containsP s buf h"
  using assms by (auto simp: releaseP_def Let_def split: if_splits)

lemma budgetInBufferP_release:
  assumes "length (slotsP buf) = sentCapacity" "releaseP s buf h = Some (e, b')"
  shows "budgetInBufferP a b' + entryBudgetP a e = budgetInBufferP a buf"
    and "length (slotsP b') = sentCapacity"
proof -
  have i: "unat s mod sentCapacity < length (slotsP buf)"
    using assms(1) slot_less by simp
  have "entryBudgetP a emptyExtP = 0"
    by (simp add: entryBudgetP_def emptyExtP_def)
  then show "budgetInBufferP a b' + entryBudgetP a e = budgetInBufferP a buf"
    using sum_list_map_update [OF i, of "entryBudgetP a" emptyExtP]
    by (simp add: releaseP_eq(1,2) [OF assms(2)] budgetInBufferP_def)
  show "length (slotsP b') = sentCapacity"
    using assms(1) by (simp add: releaseP_eq(2) [OF assms(2)])
qed

lemma budgetInBufferP_store:
  assumes "length (slotsP buf) = sentCapacity" "storeP now p r ackNow buf h = (old, buf', h')"
  shows "budgetInBufferP a buf' + entryBudgetP a old =
           budgetInBufferP a buf + (if p = a then unat r else 0)"
    and "length (slotsP buf') = sentCapacity"
proof -
  have i: "unat (nextSeqNumP buf) mod sentCapacity < length (slotsP buf)"
    using assms(1) slot_less by simp
  have o: "old = slotsP buf ! (unat (nextSeqNumP buf) mod sentCapacity)"
    and b: "slotsP buf' = (slotsP buf)[unat (nextSeqNumP buf) mod sentCapacity :=
               \<lparr> packetP = Some p, resendLimitP = r, timestampP = now \<rparr>]"
    using assms(2) by (auto simp: storeP_eq)
  show "budgetInBufferP a buf' + entryBudgetP a old =
           budgetInBufferP a buf + (if p = a then unat r else 0)"
    using sum_list_map_update [OF i, of "entryBudgetP a"
        "\<lparr> packetP = Some p, resendLimitP = r, timestampP = now \<rparr>"]
    by (simp add: o b budgetInBufferP_def entryBudgetP_def)
  show "length (slotsP buf') = sentCapacity"
    using assms(1) by (simp add: b)
qed

lemma evictedResendP_budget:
  "sum_list (map (jobBudgetP a) (evictedResendP peer old)) \<le> entryBudgetP a old"
proof (cases "packetP old")
  case None
  then show ?thesis by (simp add: evictedResendP_def)
next
  case (Some q)
  show ?thesis
  proof (cases "resendLimitP old > 0")
    case True
    then have "unat (resendLimitP old - 1) + 1 = unat (resendLimitP old)"
      by (simp add: unat_minus_one word_greater_zero_iff unat_gt_0)
    with Some True show ?thesis
      by (simp add: evictedResendP_def jobBudgetP_def entryBudgetP_def)
  next
    case False
    with Some show ?thesis by (simp add: evictedResendP_def)
  qed
qed

lemma doSendP_eq:
  assumes "storeP (clockP io) a r (m_ackP c) (m_sentPacketsP c) h = (old, buf, h')"
  shows "doSendP a r (c, h, io) =
     (c \<lparr> m_sentPacketsP := buf, m_sentCountP := m_sentCountP c + 1 \<rparr>, h',
      io \<lparr> postedP := postedP io @ evictedResendP (m_peerP c) old,
           datagramsP := datagramsP io @ [(a, h' a, m_peerP c)] \<rparr>)"
  using assms by (simp add: doSendP_def)

lemma doSendP_potential:
  assumes "length (slotsP (m_sentPacketsP c)) = sentCapacity"
  shows "resendPotentialP a (doSendP p r (c, h, io)) \<le>
           resendPotentialP a (c, h, io) + (if p = a then unat r + 1 else 0)"
    and "length (slotsP (m_sentPacketsP (fst (doSendP p r (c, h, io))))) = sentCapacity"
proof -
  obtain old buf h' where s: "storeP (clockP io) p r (m_ackP c) (m_sentPacketsP c) h = (old, buf, h')"
    by (rule prod_cases3)
  note st = budgetInBufferP_store [OF assms s]
  have ev: "sum_list (map (jobBudgetP a) (evictedResendP (m_peerP c) old)) \<le> entryBudgetP a old"
    by (rule evictedResendP_budget)
  have "resendPotentialP a (doSendP p r (c, h, io)) =
          transmissionsP a io + (if p = a then 1 else 0) +
          (budgetPostedP a io + sum_list (map (jobBudgetP a) (evictedResendP (m_peerP c) old))) +
          budgetInBufferP a buf"
    by (simp add: doSendP_eq [OF s] resendPotentialP_def transmissionsP_def budgetPostedP_def)
  also have "\<dots> \<le> resendPotentialP a (c, h, io) + (if p = a then unat r + 1 else 0)"
    using st(1) [of a] ev by (cases "p = a") (simp_all add: resendPotentialP_def)
  finally show "resendPotentialP a (doSendP p r (c, h, io)) \<le>
           resendPotentialP a (c, h, io) + (if p = a then unat r + 1 else 0)" .
  show "length (slotsP (m_sentPacketsP (fst (doSendP p r (c, h, io))))) = sentCapacity"
    using st(2) by (simp add: doSendP_eq [OF s])
qed

lemma resendPotentialP_frame:
  assumes "m_sentPacketsP c' = m_sentPacketsP c" "postedP io' = postedP io"
    "datagramsP io' = datagramsP io"
  shows "resendPotentialP a (c', h', io') = resendPotentialP a (c, h, io)"
  using assms
  by (simp add: resendPotentialP_def transmissionsP_def budgetPostedP_def)

lemma removeUndeliveredPacketP_potential:
  assumes len: "length (slotsP (m_sentPacketsP c)) = sentCapacity"
    and r: "removeUndeliveredPacketP s (c, h, io) = Some (c', h', io')"
  shows "length (slotsP (m_sentPacketsP c')) = sentCapacity \<and>
         resendPotentialP a (c', h', io') \<le> resendPotentialP a (c, h, io)"
proof (cases "containsP s (m_sentPacketsP c) h")
  case False
  with r len show ?thesis by (simp add: removeUndeliveredPacketP_def)
next
  case True
  then obtain e b' where rel: "releaseP s (m_sentPacketsP c) h = Some (e, b')"
    by (simp add: releaseP_def Let_def)
  have q: "packetP e \<noteq> None"
    using True releaseP_eq(1) [OF rel] by (auto simp: containsP_def split: option.splits)
  then obtain q where q: "packetP e = Some q" by auto
  have eq: "removeUndeliveredPacketP s (c, h, io) =
             Some (if resendLimitP e > 0
                   then doSendP q (resendLimitP e - 1) (c \<lparr> m_sentPacketsP := b' \<rparr>, h, io)
                   else (c \<lparr> m_sentPacketsP := b' \<rparr>, h, io))"
    using True rel q by (simp add: removeUndeliveredPacketP_def)
  note bud = budgetInBufferP_release [OF len rel]
  have mid: "resendPotentialP a (c \<lparr> m_sentPacketsP := b' \<rparr>, h, io) + entryBudgetP a e =
               resendPotentialP a (c, h, io)"
    using bud(1) [of a] by (simp add: resendPotentialP_def)
  show ?thesis
  proof (cases "resendLimitP e > 0")
    case False
    with eq r have "(c', h', io') = (c \<lparr> m_sentPacketsP := b' \<rparr>, h, io)" by simp
    with bud(2) mid show ?thesis by auto
  next
    case True
    define st' where "st' = doSendP q (resendLimitP e - 1) (c \<lparr> m_sentPacketsP := b' \<rparr>, h, io)"
    have st': "(c', h', io') = st'"
      using eq r True by (simp add: st'_def)
    have u: "unat (resendLimitP e - 1) + 1 = unat (resendLimitP e)"
      using True by (simp add: unat_minus_one word_greater_zero_iff unat_gt_0)
    have lb: "length (slotsP (m_sentPacketsP (c \<lparr> m_sentPacketsP := b' \<rparr>))) = sentCapacity"
      using bud(2) by simp
    have "resendPotentialP a st' \<le> resendPotentialP a (c \<lparr> m_sentPacketsP := b' \<rparr>, h, io) +
            (if q = a then unat (resendLimitP e - 1) + 1 else 0)"
      unfolding st'_def by (rule doSendP_potential(1) [OF lb])
    also have "(if q = a then unat (resendLimitP e - 1) + 1 else 0) = entryBudgetP a e"
      using q u by (simp add: entryBudgetP_def)
    finally have "resendPotentialP a st' \<le> resendPotentialP a (c, h, io)"
      using mid by simp
    moreover have "length (slotsP (m_sentPacketsP (fst st'))) = sentCapacity"
      unfolding st'_def by (rule doSendP_potential(2) [OF lb])
    ultimately show ?thesis
      using st' by (metis fst_conv)
  qed
qed

lemma confirmPacketDeliveryP_potential:
  assumes len: "length (slotsP (m_sentPacketsP c)) = sentCapacity"
    and r: "confirmPacketDeliveryP s (c, h, io) = Some (c', h', io')"
  shows "length (slotsP (m_sentPacketsP c')) = sentCapacity \<and>
         resendPotentialP a (c', h', io') \<le> resendPotentialP a (c, h, io)"
proof (cases "containsP s (m_sentPacketsP c) h")
  case False
  with r len show ?thesis by (simp add: confirmPacketDeliveryP_def)
next
  case True
  then obtain e b' where rel: "releaseP s (m_sentPacketsP c) h = Some (e, b')"
    by (simp add: releaseP_def Let_def)
  note bud = budgetInBufferP_release [OF len rel]
  from r True rel have "m_sentPacketsP c' = b'" "io' = io"
    by (auto simp: confirmPacketDeliveryP_def)
  with bud(1) [of a] bud(2) show ?thesis
    by (simp add: resendPotentialP_def)
qed

lemma forEachSeqNumP_potential:
  assumes step: "\<And>s c h io c' h' io'. length (slotsP (m_sentPacketsP c)) = sentCapacity \<Longrightarrow>
                   f s (c, h, io) = Some (c', h', io') \<Longrightarrow>
                   length (slotsP (m_sentPacketsP c')) = sentCapacity \<and>
                   resendPotentialP a (c', h', io') \<le> resendPotentialP a (c, h, io)"
    and len: "length (slotsP (m_sentPacketsP c)) = sentCapacity"
    and r: "forEachSeqNum f ss (c, h, io) = Some (c', h', io')"
  shows "length (slotsP (m_sentPacketsP c')) = sentCapacity \<and>
         resendPotentialP a (c', h', io') \<le> resendPotentialP a (c, h, io)"
  using len r
proof (induction ss arbitrary: c h io)
  case Nil
  then show ?case by simp
next
  case (Cons s ss)
  from Cons.prems(2) obtain c1 h1 io1 where 1: "f s (c, h, io) = Some (c1, h1, io1)"
    and 2: "forEachSeqNum f ss (c1, h1, io1) = Some (c', h', io')"
    by (auto split: option.splits)
  from step [OF Cons.prems(1) 1]
  have w1: "length (slotsP (m_sentPacketsP c1)) = sentCapacity"
    and p1: "resendPotentialP a (c1, h1, io1) \<le> resendPotentialP a (c, h, io)"
    by simp_all
  from Cons.IH [OF w1 2] p1 show ?case by simp
qed

lemma removeStaleP_exit:
  assumes "removeStaleP minTime minSeqNum st = Some st'"
  shows "\<exists>ss. forEachSeqNum removeUndeliveredPacketP ss st = Some st'"
proof (induct rule: removeStaleP.raw_induct)
  case (1 rs minTime minSeqNum st st')
  show ?case
  proof (cases "sent_emptyP (m_sentPacketsP (fst st))")
    case True
    with 1(2) have "st' = st" by simp
    moreover have "forEachSeqNum removeUndeliveredPacketP [] st = Some st" by simp
    ultimately show ?thesis by blast
  next
    case False
    with 1(2) obtain s t where s: "oldestSeqNumP (m_sentPacketsP (fst st)) (fst (snd st)) = Some s"
      and t: "oldestTimeP (m_sentPacketsP (fst st)) = Some t"
      by (auto split: option.splits)
    show ?thesis
    proof (cases "moreRecentSeqNum minSeqNum s \<or> minTime > t")
      case stale: False
      with False s t 1(2) have "st' = st" by simp
      moreover have "forEachSeqNum removeUndeliveredPacketP [] st = Some st" by simp
      ultimately show ?thesis by blast
    next
      case stale: True
      with False s t 1(2) obtain st1 where r: "removeUndeliveredPacketP s st = Some st1"
        and l: "rs minTime minSeqNum st1 = Some st'"
        by (auto simp: bind_eq_Some_conv)
      from 1(1) [OF l] obtain ss where
        ss: "forEachSeqNum removeUndeliveredPacketP ss st1 = Some st'"
        by blast
      have "forEachSeqNum removeUndeliveredPacketP (s # ss) st = Some st'"
        using r ss by simp
      then show ?thesis by blast
    qed
  qed
qed (rule assms)

lemma processPeerAcksP_potential:
  assumes len: "length (slotsP (m_sentPacketsP c)) = sentCapacity"
    and r: "processPeerAcksP peerAck (c, h, io) = Some (c', h', io')"
  shows "length (slotsP (m_sentPacketsP c')) = sentCapacity \<and>
         resendPotentialP a (c', h', io') \<le> resendPotentialP a (c, h, io)"
proof -
  from r obtain c1 h1 io1 where
    1: "forEachSeqNum confirmPacketDeliveryP (ackedSeqNums peerAck) (c, h, io) = Some (c1, h1, io1)"
    and 2: "removeStaleP (clockP io1 - 2000) (latest peerAck - 256) (c1, h1, io1) = Some (c', h', io')"
    by (auto simp: processPeerAcksP_def forEachAckedSeqNum_def split: option.splits)
  have m: "length (slotsP (m_sentPacketsP c1)) = sentCapacity \<and>
           resendPotentialP a (c1, h1, io1) \<le> resendPotentialP a (c, h, io)"
    by (rule forEachSeqNumP_potential [OF confirmPacketDeliveryP_potential len 1])
  from removeStaleP_exit [OF 2] obtain ss where
    3: "forEachSeqNum removeUndeliveredPacketP ss (c1, h1, io1) = Some (c', h', io')"
    by blast
  have "length (slotsP (m_sentPacketsP c')) = sentCapacity \<and>
        resendPotentialP a (c', h', io') \<le> resendPotentialP a (c1, h1, io1)"
    by (rule forEachSeqNumP_potential [OF removeUndeliveredPacketP_potential conjunct1 [OF m] 3])
  with m show ?thesis by simp
qed

lemma handleSendP_potential:
  assumes len: "length (slotsP (m_sentPacketsP c)) = sentCapacity"
    and r: "handleSendP p err (c, h, io) = Some (c', h', io')"
  shows "length (slotsP (m_sentPacketsP c')) = sentCapacity \<and>
         resendPotentialP a (c', h', io') \<le> resendPotentialP a (c, h, io)"
proof (cases "err = 0")
  case True
  with r len show ?thesis by (simp add: handleSendP_def)
next
  case False
  define io1 where "io1 = io \<lparr> notifiedP := notifiedP io @ [OnError (m_peerP c) err] \<rparr>"
  from False r have "removeUndeliveredPacketP (seqNum (header (h p))) (c, h, io1) = Some (c', h', io')"
    by (simp add: handleSendP_def io1_def)
  from removeUndeliveredPacketP_potential [OF len this, of a]
  have "length (slotsP (m_sentPacketsP c')) = sentCapacity"
    "resendPotentialP a (c', h', io') \<le> resendPotentialP a (c, h, io1)"
    by simp_all
  moreover have "resendPotentialP a (c, h, io1) = resendPotentialP a (c, h, io)"
    by (rule resendPotentialP_frame) (simp_all add: io1_def)
  ultimately show ?thesis by simp
qed

lemma handleReceiveP_potential:
  assumes len: "length (slotsP (m_sentPacketsP c)) = sentCapacity"
    and r: "handleReceiveP p (c, h, io) = Some (c', h', io')"
  shows "length (slotsP (m_sentPacketsP c')) = sentCapacity \<and>
         resendPotentialP a (c', h', io') \<le> resendPotentialP a (c, h, io)"
proof -
  define c0 where "c0 = c \<lparr> m_recvTimeP := clockP io, m_recvCountP := m_recvCountP c + 1,
                             m_ackP := updateForSeqNum (seqNum (header p)) (m_ackP c) \<rparr>"
  from r obtain c1 where 1: "processPeerAcksP (ack (header p)) (c0, h, io) = Some (c1, h', io')"
    and 2: "m_sentPacketsP c' = m_sentPacketsP c1"
    by (auto simp: handleReceiveP_def c0_def recv_insert_def Let_def split: option.splits)
  have len0: "length (slotsP (m_sentPacketsP c0)) = sentCapacity"
    using len by (simp add: c0_def)
  from processPeerAcksP_potential [OF len0 1, of a]
  have "length (slotsP (m_sentPacketsP c1)) = sentCapacity"
    "resendPotentialP a (c1, h', io') \<le> resendPotentialP a (c0, h, io)"
    by simp_all
  moreover have "resendPotentialP a (c0, h, io) = resendPotentialP a (c, h, io)"
    by (rule resendPotentialP_frame) (simp_all add: c0_def)
  moreover have "resendPotentialP a (c', h', io') = resendPotentialP a (c1, h', io')"
    by (rule resendPotentialP_frame) (simp_all add: 2)
  ultimately show ?thesis
    using 2 by simp
qed

lemma stepP_potential:
  assumes len: "length (slotsP (m_sentPacketsP c)) = sentCapacity"
    and r: "stepP e (c, h, io) = Some (c', h', io')"
  shows "length (slotsP (m_sentPacketsP c')) = sentCapacity \<and>
         resendPotentialP a (c', h', io') \<le> resendPotentialP a (c, h, io) + submittedP a [e]"
proof (cases e)
  case (AppSendP p k)
  with r have "c' = c" "io' = io \<lparr> postedP := postedP io @ [(m_peerP c, p, k)] \<rparr>"
    by (auto simp: asyncSendP_def)
  with len AppSendP show ?thesis
    by (simp add: resendPotentialP_def transmissionsP_def budgetPostedP_def jobBudgetP_def)
next
  case RunJobP
  show ?thesis
  proof (cases "postedP io")
    case Nil
    with r RunJobP len show ?thesis by simp
  next
    case (Cons job rest)
    obtain peer p k where job: "job = (peer, p, k)" by (cases job)
    define io1 where "io1 = io \<lparr> postedP := rest \<rparr>"
    from r RunJobP Cons job have d: "(c', h', io') = doSendP p k (c, h, io1)"
      by (simp add: io1_def)
    have "resendPotentialP a (c, h, io1) + (if p = a then unat k + 1 else 0) = resendPotentialP a (c, h, io)"
      using Cons job
      by (simp add: resendPotentialP_def transmissionsP_def budgetPostedP_def jobBudgetP_def io1_def)
    moreover have "resendPotentialP a (doSendP p k (c, h, io1)) \<le>
                     resendPotentialP a (c, h, io1) + (if p = a then unat k + 1 else 0)"
      by (rule doSendP_potential(1) [OF len])
    moreover have "length (slotsP (m_sentPacketsP (fst (doSendP p k (c, h, io1))))) = sentCapacity"
      by (rule doSendP_potential(2) [OF len])
    ultimately show ?thesis
      using d RunJobP by (metis add.right_neutral fst_conv submittedP.simps(1) submittedP.simps(3))
  qed
next
  case (SendDoneP p err)
  with r have "handleSendP p err (c, h, io) = Some (c', h', io')" by simp
  from handleSendP_potential [OF len this, of a] SendDoneP show ?thesis by simp
next
  case (ReceiveP p)
  with r have "handleReceiveP p (c, h, io) = Some (c', h', io')" by simp
  from handleReceiveP_potential [OF len this, of a] ReceiveP show ?thesis by simp
next
  case (TickP d)
  with r have "c' = c" "io' = io \<lparr> clockP := clockP io + int d \<rparr>" by auto
  with len TickP show ?thesis
    by (simp add: resendPotentialP_def transmissionsP_def budgetPostedP_def)
next
  case DispatchP
  with r have "m_sentPacketsP c' = m_sentPacketsP c" "io' = io"
    by (auto simp: dispatchReceivedPacketsP_def split: prod.splits)
  with len DispatchP show ?thesis
    by (simp add: resendPotentialP_def)
qed

lemma submittedP_Cons: "submittedP a (e # es) = submittedP a [e] + submittedP a es"
  by (cases e) simp_all

lemma runP_potential:
  assumes "length (slotsP (m_sentPacketsP c)) = sentCapacity"
    "runP evs (c, h, io) = Some (c', h', io')"
  shows "length (slotsP (m_sentPacketsP c')) = sentCapacity \<and>
         resendPotentialP a (c', h', io') \<le> resendPotentialP a (c, h, io) + submittedP a evs"
  using assms
proof (induction evs arbitrary: c h io)
  case Nil
  then show ?case by simp
next
  case (Cons e evs)
  from Cons.prems(2) obtain c1 h1 io1 where 1: "stepP e (c, h, io) = Some (c1, h1, io1)"
    and 2: "runP evs (c1, h1, io1) = Some (c', h', io')"
    by (auto split: option.splits)
  from stepP_potential [OF Cons.prems(1) 1, of a]
  have w1: "length (slotsP (m_sentPacketsP c1)) = sentCapacity"
    and p1: "resendPotentialP a (c1, h1, io1) \<le> resendPotentialP a (c, h, io) + submittedP a [e]"
    by simp_all
  from Cons.IH [OF w1 2] p1 show ?case
    using submittedP_Cons [of a e evs] by simp
qed

lemma budgetPostedP_none:
  assumes "\<forall>job \<in> set (postedP io). fst (snd job) \<noteq> a"
  shows "budgetPostedP a io = 0"
  using assms by (simp add: budgetPostedP_def jobBudgetP_def)

lemma submittedP_none:
  assumes "\<forall>r. AppSendP a r \<notin> set evs"
  shows "submittedP a evs = 0"
  using assms
proof (induction evs)
  case Nil
  then show ?case by simp
next
  case (Cons e evs)
  then show ?case by (cases e) auto
qed

lemma budgetInBufferP_single:
  assumes len: "length (slotsP buf) = sentCapacity"
    and i: "i < sentCapacity" "packetP (slotsP buf ! i) = Some a"
    and others: "\<forall>j < sentCapacity. j \<noteq> i \<longrightarrow> packetP (slotsP buf ! j) \<noteq> Some a"
  shows "budgetInBufferP a buf = unat (resendLimitP (slotsP buf ! i))"
proof -
  have "budgetInBufferP a buf = entryBudgetP a (slotsP buf ! i)"
    unfolding budgetInBufferP_def
  proof (rule sum_list_single)
    show "i < length (slotsP buf)" using i(1) len by simp
    show "\<forall>j < length (slotsP buf). j \<noteq> i \<longrightarrow> entryBudgetP a (slotsP buf ! j) = 0"
      using others len by (simp add: entryBudgetP_def)
  qed
  then show ?thesis
    using i(2) by (simp add: entryBudgetP_def)
qed

section \<open>Runs without shared packet objects return\<close>

lemma wfSentP_iff:
  "wfSentP buf h \<longleftrightarrow>
     length (slotsP buf) = sentCapacity \<and>
     (\<forall>i < sentCapacity. \<forall>a. packetP (slotsP buf ! i) = Some a \<longrightarrow>
        unat (seqNum (header (h a))) mod sentCapacity = i)"
  by (auto simp: wfSentP_def list_all_iff split: option.splits)

lemma wfSentP_length: "wfSentP buf h \<Longrightarrow> length (slotsP buf) = sentCapacity"
  by (simp add: wfSentP_iff)

lemma in_slotObjects:
  "a \<in> set (slotObjects buf) \<longleftrightarrow> (\<exists>i < length (slotsP buf). packetP (slotsP buf ! i) = Some a)"
proof -
  have one: "a \<in> set (case packetP e of None \<Rightarrow> [] | Some b \<Rightarrow> [b]) \<longleftrightarrow> packetP e = Some a" for e
    by (cases "packetP e") auto
  have "a \<in> set (slotObjects buf) \<longleftrightarrow> (\<exists>e \<in> set (slotsP buf). packetP e = Some a)"
    unfolding slotObjects_def set_concat set_map UN_iff bex_simps one ..
  also have "\<dots> \<longleftrightarrow> (\<exists>i < length (slotsP buf). packetP (slotsP buf ! i) = Some a)"
    by (metis in_set_conv_nth)
  finally show ?thesis .
qed

lemma in_sentSeqNumsP:
  "s \<in> set (sentSeqNumsP buf h) \<longleftrightarrow>
     (\<exists>i < length (slotsP buf). \<exists>a. packetP (slotsP buf ! i) = Some a \<and> seqNum (header (h a)) = s)"
proof -
  have one: "s \<in> set (case packetP e of None \<Rightarrow> [] | Some a \<Rightarrow> [seqNum (header (h a))]) \<longleftrightarrow>
          (\<exists>a. packetP e = Some a \<and> seqNum (header (h a)) = s)" for e
    by (cases "packetP e") auto
  have "s \<in> set (sentSeqNumsP buf h) \<longleftrightarrow>
          (\<exists>e \<in> set (slotsP buf). \<exists>a. packetP e = Some a \<and> seqNum (header (h a)) = s)"
    unfolding sentSeqNumsP_def set_concat set_map UN_iff bex_simps one ..
  also have "\<dots> \<longleftrightarrow>
     (\<exists>i < length (slotsP buf). \<exists>a. packetP (slotsP buf ! i) = Some a \<and> seqNum (header (h a)) = s)"
    by (metis in_set_conv_nth)
  finally show ?thesis .
qed

lemma wfSentP_contains_iff:
  assumes "wfSentP buf h"
  shows "containsP s buf h \<longleftrightarrow> s \<in> set (sentSeqNumsP buf h)"
proof
  assume "containsP s buf h"
  then obtain a where "packetP (slotsP buf ! (unat s mod sentCapacity)) = Some a" "seqNum (header (h a)) = s"
    by (auto simp: containsP_def split: option.splits)
  then show "s \<in> set (sentSeqNumsP buf h)"
    using slot_less [of s] wfSentP_length [OF assms] unfolding in_sentSeqNumsP by metis
next
  assume "s \<in> set (sentSeqNumsP buf h)"
  then obtain i a where i: "i < length (slotsP buf)" "packetP (slotsP buf ! i) = Some a"
    "seqNum (header (h a)) = s"
    unfolding in_sentSeqNumsP by blast
  then have "unat s mod sentCapacity = i"
    using assms by (auto simp: wfSentP_iff)
  with i show "containsP s buf h"
    by (simp add: containsP_def)
qed

lemma sent_emptyP_iff: "sent_emptyP buf \<longleftrightarrow> sentSeqNumsP buf h = []"
proof -
  have "sentSeqNumsP buf h = [] \<longleftrightarrow> (\<forall>s. s \<notin> set (sentSeqNumsP buf h))"
    by (cases "sentSeqNumsP buf h") auto
  also have "\<dots> \<longleftrightarrow> (\<forall>i < length (slotsP buf). packetP (slotsP buf ! i) = None)"
    unfolding in_sentSeqNumsP by (metis not_None_eq)
  also have "\<dots> \<longleftrightarrow> sent_emptyP buf"
    by (simp add: sent_emptyP_def list_all_length)
  finally show ?thesis by simp
qed

lemma sentTimesP_empty_iff: "sentTimesP buf = [] \<longleftrightarrow> sent_emptyP buf"
  by (auto simp: sentTimesP_def sent_emptyP_def filter_empty_conv list_all_iff)

lemma oldestSeqNumP_contained:
  assumes "wfSentP buf h" "\<not> sent_emptyP buf"
  obtains s where "oldestSeqNumP buf h = Some s" "containsP s buf h"
proof -
  from assms(2) obtain c cs where occ: "sentSeqNumsP buf h = c # cs"
    by (auto simp: sent_emptyP_iff [of buf h] neq_Nil_conv)
  then have "oldestSeqNumP buf h = Some (oldestOf c cs)"
    by (simp add: oldestSeqNumP_def)
  moreover have "containsP (oldestOf c cs) buf h"
    using oldestOf_in [of c cs] occ by (simp add: wfSentP_contains_iff [OF assms(1)])
  ultimately show ?thesis by (rule that)
qed

lemma oldestTimeP_some:
  assumes "\<not> sent_emptyP buf"
  obtains t where "oldestTimeP buf = Some t"
proof -
  from assms obtain u us where "sentTimesP buf = u # us"
    by (auto simp: sentTimesP_empty_iff [symmetric] neq_Nil_conv)
  then have "oldestTimeP buf = Some (foldl min u us)"
    by (simp add: oldestTimeP_def)
  then show ?thesis by (rule that)
qed

lemma wfSentP_release:
  assumes wf: "wfSentP buf h" and rel: "releaseP s buf h = Some (e, b')"
  obtains q where "packetP e = Some q" "wfSentP b' h"
    "set (slotObjects b') = set (slotObjects buf) - {q}"
proof -
  define i where "i = unat s mod sentCapacity"
  have e: "e = slotsP buf ! i" and b': "b' = buf \<lparr> slotsP := (slotsP buf)[i := emptyExtP] \<rparr>"
    and c: "containsP s buf h"
    using releaseP_eq [OF rel] by (simp_all add: i_def)
  have i: "i < sentCapacity" by (simp add: i_def slot_less)
  have len: "length (slotsP buf) = sentCapacity" by (rule wfSentP_length [OF wf])
  from c obtain q where q: "packetP e = Some q"
    by (auto simp: containsP_def e i_def split: option.splits)
  have wf': "wfSentP b' h"
    using wf i by (auto simp: wfSentP_iff b' nth_list_update emptyExtP_def)
  have "set (slotObjects b') = set (slotObjects buf) - {q}"
  proof (rule set_eqI)
    fix a
    show "a \<in> set (slotObjects b') \<longleftrightarrow> a \<in> set (slotObjects buf) - {q}"
    proof
      assume "a \<in> set (slotObjects b')"
      then obtain j where j: "j < sentCapacity" "packetP ((slotsP buf)[i := emptyExtP] ! j) = Some a"
        using len by (auto simp: in_slotObjects b')
      then have ji: "j \<noteq> i" using i len by (auto simp: nth_list_update emptyExtP_def)
      with j have ja: "packetP (slotsP buf ! j) = Some a" by simp
      have "a \<noteq> q"
      proof
        assume "a = q"
        with ja q e wf j(1) i have "j = i" by (auto simp: wfSentP_iff)
        with ji show False by simp
      qed
      with ja j(1) len show "a \<in> set (slotObjects buf) - {q}"
        by (auto simp: in_slotObjects)
    next
      assume "a \<in> set (slotObjects buf) - {q}"
      then obtain j where j: "j < sentCapacity" "packetP (slotsP buf ! j) = Some a" and aq: "a \<noteq> q"
        using len by (auto simp: in_slotObjects)
      have "j \<noteq> i" using j aq q e by auto
      with j len show "a \<in> set (slotObjects b')"
        by (auto simp: in_slotObjects b')
    qed
  qed
  with q wf' show ?thesis by (rule that)
qed

lemma wfSentP_store:
  assumes wf: "wfSentP buf h" and fresh: "a \<notin> set (slotObjects buf)"
    and st: "storeP now a r ackNow buf h = (old, buf', h')"
  shows "wfSentP buf' h'"
    and "set (slotObjects buf') =
           insert a (set (slotObjects buf) - (case packetP old of None \<Rightarrow> {} | Some q \<Rightarrow> {q}))"
proof -
  define i where "i = unat (nextSeqNumP buf) mod sentCapacity"
  have old: "old = slotsP buf ! i"
    and b': "slotsP buf' = (slotsP buf)[i := \<lparr> packetP = Some a, resendLimitP = r, timestampP = now \<rparr>]"
    and h': "h' = h (a := (h a) \<lparr> header := (header (h a)) \<lparr> seqNum := nextSeqNumP buf, ack := ackNow \<rparr> \<rparr>)"
    using st by (auto simp: storeP_eq i_def)
  have i: "i < sentCapacity" by (simp add: i_def slot_less)
  have len: "length (slotsP buf) = sentCapacity" by (rule wfSentP_length [OF wf])
  have other: "b \<noteq> a" if "j < sentCapacity" "packetP (slotsP buf ! j) = Some b" for j b
    using that fresh len by (auto simp: in_slotObjects)
  show "wfSentP buf' h'"
    unfolding wfSentP_iff
  proof (intro conjI allI impI)
    show "length (slotsP buf') = sentCapacity" using len by (simp add: b')
  next
    fix j b assume j: "j < sentCapacity" and b: "packetP (slotsP buf' ! j) = Some b"
    show "unat (seqNum (header (h' b))) mod sentCapacity = j"
    proof (cases "j = i")
      case True
      with b i len have "b = a" by (simp add: b')
      with True show ?thesis by (simp add: h' i_def)
    next
      case False
      with b have bj: "packetP (slotsP buf ! j) = Some b" by (simp add: b')
      then have "b \<noteq> a" by (rule other [OF j])
      then have "h' b = h b" by (simp add: h')
      with wf j bj show ?thesis by (simp add: wfSentP_iff)
    qed
  qed
  show "set (slotObjects buf') =
           insert a (set (slotObjects buf) - (case packetP old of None \<Rightarrow> {} | Some q \<Rightarrow> {q}))"
  proof (rule set_eqI)
    fix b
    show "b \<in> set (slotObjects buf') \<longleftrightarrow>
          b \<in> insert a (set (slotObjects buf) - (case packetP old of None \<Rightarrow> {} | Some q \<Rightarrow> {q}))"
    proof
      assume "b \<in> set (slotObjects buf')"
      then obtain j where j: "j < sentCapacity" "packetP (slotsP buf' ! j) = Some b"
        using len by (auto simp: in_slotObjects b')
      show "b \<in> insert a (set (slotObjects buf) - (case packetP old of None \<Rightarrow> {} | Some q \<Rightarrow> {q}))"
      proof (cases "j = i")
        case True
        with j i len show ?thesis by (simp add: b')
      next
        case False
        with j have bj: "packetP (slotsP buf ! j) = Some b" by (simp add: b')
        have "packetP old \<noteq> Some b"
        proof
          assume "packetP old = Some b"
          with bj old wf j(1) i have "j = i" by (auto simp: wfSentP_iff)
          with False show False by simp
        qed
        with bj j(1) len show ?thesis
          by (auto simp: in_slotObjects split: option.splits)
      qed
    next
      assume "b \<in> insert a (set (slotObjects buf) - (case packetP old of None \<Rightarrow> {} | Some q \<Rightarrow> {q}))"
      then consider "b = a" |
        j where "j < sentCapacity" "packetP (slotsP buf ! j) = Some b" "packetP old \<noteq> Some b"
        using len by (auto simp: in_slotObjects split: option.splits)
      then show "b \<in> set (slotObjects buf')"
      proof cases
        case 1
        have "packetP (slotsP buf' ! i) = Some a" using i len by (simp add: b')
        with 1 i len show ?thesis by (auto simp: in_slotObjects b')
      next
        case 2
        then have "j \<noteq> i" using old by auto
        with 2 len show ?thesis by (auto simp: in_slotObjects b')
      qed
    qed
  qed
qed

lemma sentCostP_release:
  assumes "length (slotsP buf) = sentCapacity" "releaseP s buf h = Some (e, b')"
  shows "sentCostP b' + entryCostP e = sentCostP buf"
proof -
  have i: "unat s mod sentCapacity < length (slotsP buf)"
    using assms(1) slot_less by simp
  have "entryCostP emptyExtP = 0"
    by (simp add: entryCostP_def emptyExtP_def)
  then show ?thesis
    using sum_list_map_update [OF i, of entryCostP emptyExtP]
    by (simp add: releaseP_eq(1,2) [OF assms(2)] sentCostP_def)
qed

lemma sentCostP_store:
  assumes "length (slotsP buf) = sentCapacity" "storeP now p r ackNow buf h = (old, buf', h')"
  shows "sentCostP buf' + entryCostP old = sentCostP buf + unat r + 1"
proof -
  have i: "unat (nextSeqNumP buf) mod sentCapacity < length (slotsP buf)"
    using assms(1) slot_less by simp
  have o: "old = slotsP buf ! (unat (nextSeqNumP buf) mod sentCapacity)"
    and b: "slotsP buf' = (slotsP buf)[unat (nextSeqNumP buf) mod sentCapacity :=
               \<lparr> packetP = Some p, resendLimitP = r, timestampP = now \<rparr>]"
    using assms(2) by (auto simp: storeP_eq)
  show ?thesis
    using sum_list_map_update [OF i, of entryCostP
        "\<lparr> packetP = Some p, resendLimitP = r, timestampP = now \<rparr>"]
    by (simp add: o b sentCostP_def entryCostP_def)
qed

lemma noSharing_iff:
  "noSharing (c, h, io) \<longleftrightarrow>
     wfSentP (m_sentPacketsP c) h \<and> distinct (postedObjects io) \<and>
     set (slotObjects (m_sentPacketsP c)) \<inter> set (postedObjects io) = {}"
  by (auto simp: noSharing_def list_all_iff)

lemma inFlight_set:
  "set (inFlight (c, h, io)) = set (slotObjects (m_sentPacketsP c)) \<union> set (postedObjects io)"
  by (simp add: inFlight_def)

lemma evictedResendP_objects:
  "map (\<lambda>job. fst (snd job)) (evictedResendP peer old) = [] \<or>
   (\<exists>q. packetP old = Some q \<and> map (\<lambda>job. fst (snd job)) (evictedResendP peer old) = [q])"
  by (auto simp: evictedResendP_def split: option.splits)

lemma doSendP_inv:
  assumes ns: "noSharing (c, h, io)" and fa: "a \<notin> set (inFlight (c, h, io))"
  shows "noSharing (doSendP a r (c, h, io))"
    and "set (inFlight (doSendP a r (c, h, io))) \<subseteq> insert a (set (inFlight (c, h, io)))"
    and "sentCostP (m_sentPacketsP (fst (doSendP a r (c, h, io)))) \<le>
           sentCostP (m_sentPacketsP c) + unat r + 1"
    and "clockP (snd (snd (doSendP a r (c, h, io)))) = clockP io"
proof -
  obtain old buf h' where s: "storeP (clockP io) a r (m_ackP c) (m_sentPacketsP c) h = (old, buf, h')"
    by (rule prod_cases3)
  have wf: "wfSentP (m_sentPacketsP c) h" and dp: "distinct (postedObjects io)"
    and dj: "set (slotObjects (m_sentPacketsP c)) \<inter> set (postedObjects io) = {}"
    using ns by (simp_all add: noSharing_iff)
  have fs: "a \<notin> set (slotObjects (m_sentPacketsP c))" and fp: "a \<notin> set (postedObjects io)"
    using fa by (simp_all add: inFlight_set)
  note st = wfSentP_store [OF wf fs s]
  define ev where "ev = map (\<lambda>job. fst (snd job)) (evictedResendP (m_peerP c) old)"
  have eq: "doSendP a r (c, h, io) =
     (c \<lparr> m_sentPacketsP := buf, m_sentCountP := m_sentCountP c + 1 \<rparr>, h',
      io \<lparr> postedP := postedP io @ evictedResendP (m_peerP c) old,
           datagramsP := datagramsP io @ [(a, h' a, m_peerP c)] \<rparr>)"
    by (rule doSendP_eq [OF s])
  have po: "postedObjects (io \<lparr> postedP := postedP io @ evictedResendP (m_peerP c) old,
           datagramsP := datagramsP io @ [(a, h' a, m_peerP c)] \<rparr>) = postedObjects io @ ev"
    by (simp add: postedObjects_def ev_def)
  have oldin: "q \<in> set (slotObjects (m_sentPacketsP c))" if "packetP old = Some q" for q
  proof -
    have "old = slotsP (m_sentPacketsP c) ! (unat (nextSeqNumP (m_sentPacketsP c)) mod sentCapacity)"
      using s by (simp add: storeP_eq)
    with that slot_less [of "nextSeqNumP (m_sentPacketsP c)"] wfSentP_length [OF wf]
    show ?thesis unfolding in_slotObjects by metis
  qed
  have "ev = [] \<or> (\<exists>q. packetP old = Some q \<and> ev = [q])"
    unfolding ev_def by (rule evictedResendP_objects)
  then consider "ev = []" | q where "packetP old = Some q" "ev = [q]"
    by blast
  then have main: "distinct (postedObjects io @ ev) \<and>
         set (slotObjects buf) \<inter> set (postedObjects io @ ev) = {} \<and>
         set (slotObjects buf) \<union> set (postedObjects io @ ev) \<subseteq>
           insert a (set (slotObjects (m_sentPacketsP c)) \<union> set (postedObjects io))"
  proof cases
    case 1
    with dp dj fp st(2) show ?thesis
      by (auto split: option.splits)
  next
    case 2
    have qs: "q \<in> set (slotObjects (m_sentPacketsP c))" by (rule oldin [OF 2(1)])
    then have qp: "q \<notin> set (postedObjects io)" using dj by auto
    have qa: "q \<noteq> a" using qs fs by auto
    have "set (slotObjects buf) = insert a (set (slotObjects (m_sentPacketsP c)) - {q})"
      using st(2) 2(1) by simp
    with 2(2) dp dj fp qp qa qs show ?thesis by auto
  qed
  show "noSharing (doSendP a r (c, h, io))"
    unfolding eq noSharing_iff po using st(1) main by simp
  show "set (inFlight (doSendP a r (c, h, io))) \<subseteq> insert a (set (inFlight (c, h, io)))"
    unfolding eq inFlight_set po using main by simp
  show "sentCostP (m_sentPacketsP (fst (doSendP a r (c, h, io)))) \<le>
           sentCostP (m_sentPacketsP c) + unat r + 1"
    using sentCostP_store [OF wfSentP_length [OF wf] s] by (simp add: eq)
  show "clockP (snd (snd (doSendP a r (c, h, io)))) = clockP io"
    by (simp add: eq)
qed

lemma removeUndeliveredPacketP_inv:
  assumes ns: "noSharing (c, h, io)"
  shows "\<exists>c' h' io'. removeUndeliveredPacketP s (c, h, io) = Some (c', h', io') \<and>
           noSharing (c', h', io') \<and>
           set (inFlight (c', h', io')) \<subseteq> set (inFlight (c, h, io)) \<and>
           clockP io' = clockP io \<and>
           (containsP s (m_sentPacketsP c) h \<longrightarrow>
              sentCostP (m_sentPacketsP c') < sentCostP (m_sentPacketsP c))"
proof (cases "containsP s (m_sentPacketsP c) h")
  case False
  then have "removeUndeliveredPacketP s (c, h, io) = Some (c, h, io)"
    by (simp add: removeUndeliveredPacketP_def)
  with ns False show ?thesis by simp
next
  case True
  have wf: "wfSentP (m_sentPacketsP c) h" and dp: "distinct (postedObjects io)"
    and dj: "set (slotObjects (m_sentPacketsP c)) \<inter> set (postedObjects io) = {}"
    using ns by (simp_all add: noSharing_iff)
  from True obtain e b' where rel: "releaseP s (m_sentPacketsP c) h = Some (e, b')"
    by (simp add: releaseP_def Let_def)
  from wfSentP_release [OF wf rel] obtain q where q: "packetP e = Some q"
    and wfb: "wfSentP b' h"
    and sl: "set (slotObjects b') = set (slotObjects (m_sentPacketsP c)) - {q}"
    by blast
  define c1 where "c1 = c \<lparr> m_sentPacketsP := b' \<rparr>"
  have ns1: "noSharing (c1, h, io)"
    unfolding noSharing_iff c1_def using wfb dp dj sl by auto
  have qin: "q \<in> set (slotObjects (m_sentPacketsP c))"
  proof -
    have "e = slotsP (m_sentPacketsP c) ! (unat s mod sentCapacity)"
      by (rule releaseP_eq(1) [OF rel])
    with q slot_less [of s] wfSentP_length [OF wf] show ?thesis
      unfolding in_slotObjects by metis
  qed
  have f1: "q \<notin> set (inFlight (c1, h, io))"
    unfolding inFlight_set c1_def using sl dj qin by auto
  have sub1: "set (inFlight (c1, h, io)) \<subseteq> set (inFlight (c, h, io))"
    unfolding inFlight_set c1_def using sl by auto
  have cost: "sentCostP b' + unat (resendLimitP e) + 1 = sentCostP (m_sentPacketsP c)"
    using sentCostP_release [OF wfSentP_length [OF wf] rel] q by (simp add: entryCostP_def)
  have eq: "removeUndeliveredPacketP s (c, h, io) =
             Some (if resendLimitP e > 0
                   then doSendP q (resendLimitP e - 1) (c1, h, io)
                   else (c1, h, io))"
    using True rel q by (simp add: removeUndeliveredPacketP_def c1_def)
  show ?thesis
  proof (cases "resendLimitP e > 0")
    case False
    with eq have "removeUndeliveredPacketP s (c, h, io) = Some (c1, h, io)" by simp
    moreover have "sentCostP (m_sentPacketsP c1) < sentCostP (m_sentPacketsP c)"
      using cost by (simp add: c1_def)
    ultimately show ?thesis
      using ns1 sub1 by simp
  next
    case pos: True
    define st' where "st' = doSendP q (resendLimitP e - 1) (c1, h, io)"
    note d = doSendP_inv [OF ns1 f1, of "resendLimitP e - 1", folded st'_def]
    have u: "unat (resendLimitP e - 1) = unat (resendLimitP e) - 1" "unat (resendLimitP e) > 0"
      using pos by (simp_all add: unat_minus_one word_greater_zero_iff unat_gt_0)
    have lt: "sentCostP (m_sentPacketsP (fst st')) < sentCostP (m_sentPacketsP c)"
      using d(3) cost u by (simp add: c1_def)
    have sub: "set (inFlight st') \<subseteq> set (inFlight (c, h, io))"
    proof -
      have "q \<in> set (inFlight (c, h, io))" using qin by (simp add: inFlight_set)
      with d(2) sub1 show ?thesis by auto
    qed
    have r: "removeUndeliveredPacketP s (c, h, io) = Some (fst st', fst (snd st'), snd (snd st'))"
      using eq pos by (simp add: st'_def)
    show ?thesis
      by (intro exI [of _ "fst st'"] exI [of _ "fst (snd st')"] exI [of _ "snd (snd st')"])
         (use r d(1) d(4) sub lt in simp)
  qed
qed

lemma confirmPacketDeliveryP_inv:
  assumes ns: "noSharing (c, h, io)"
  shows "\<exists>c'. confirmPacketDeliveryP s (c, h, io) = Some (c', h, io) \<and>
           noSharing (c', h, io) \<and>
           set (inFlight (c', h, io)) \<subseteq> set (inFlight (c, h, io))"
proof (cases "containsP s (m_sentPacketsP c) h")
  case False
  then have "confirmPacketDeliveryP s (c, h, io) = Some (c, h, io)"
    by (simp add: confirmPacketDeliveryP_def)
  with ns show ?thesis by simp
next
  case True
  have wf: "wfSentP (m_sentPacketsP c) h" and dp: "distinct (postedObjects io)"
    and dj: "set (slotObjects (m_sentPacketsP c)) \<inter> set (postedObjects io) = {}"
    using ns by (simp_all add: noSharing_iff)
  from True obtain e b' where rel: "releaseP s (m_sentPacketsP c) h = Some (e, b')"
    by (simp add: releaseP_def Let_def)
  from wfSentP_release [OF wf rel] obtain q where
    wfb: "wfSentP b' h"
    and sl: "set (slotObjects b') = set (slotObjects (m_sentPacketsP c)) - {q}"
    by blast
  define c' where "c' = c \<lparr> m_sentPacketsP := b',
                       m_averageRTTP := rttUpdate (m_averageRTTP c) (word_of_int (clockP io - timestampP e)),
                       m_ackdCountP := m_ackdCountP c + 1 \<rparr>"
  have "confirmPacketDeliveryP s (c, h, io) = Some (c', h, io)"
    using True rel by (simp add: confirmPacketDeliveryP_def c'_def)
  moreover have "noSharing (c', h, io)"
    unfolding noSharing_iff c'_def using wfb dp dj sl by auto
  moreover have "set (inFlight (c', h, io)) \<subseteq> set (inFlight (c, h, io))"
    unfolding inFlight_set c'_def using sl by auto
  ultimately show ?thesis by blast
qed

lemma forEach_confirmP_inv:
  assumes "noSharing (c, h, io)"
  shows "\<exists>c'. forEachSeqNum confirmPacketDeliveryP ss (c, h, io) = Some (c', h, io) \<and>
           noSharing (c', h, io) \<and>
           set (inFlight (c', h, io)) \<subseteq> set (inFlight (c, h, io))"
  using assms
proof (induction ss arbitrary: c)
  case Nil
  then show ?case by simp
next
  case (Cons s ss)
  from confirmPacketDeliveryP_inv [OF Cons.prems, of s]
  obtain c1 where 1: "confirmPacketDeliveryP s (c, h, io) = Some (c1, h, io)"
    "noSharing (c1, h, io)" "set (inFlight (c1, h, io)) \<subseteq> set (inFlight (c, h, io))"
    by blast
  from Cons.IH [OF 1(2)] obtain c' where
    2: "forEachSeqNum confirmPacketDeliveryP ss (c1, h, io) = Some (c', h, io)"
    "noSharing (c', h, io)" "set (inFlight (c', h, io)) \<subseteq> set (inFlight (c1, h, io))"
    by blast
  from 1 2 show ?case by auto
qed

lemma removeStaleP_inv:
  assumes "noSharing st"
  shows "\<exists>st'. removeStaleP minTime minSeqNum st = Some st' \<and> noSharing st' \<and>
           set (inFlight st') \<subseteq> set (inFlight st)"
  using assms
proof (induction "sentCostP (m_sentPacketsP (fst st))" arbitrary: st rule: less_induct)
  case less
  obtain c h io where st: "st = (c, h, io)" by (cases st)
  have ns: "noSharing (c, h, io)" using less.prems st by simp
  have wf: "wfSentP (m_sentPacketsP c) h" using ns by (simp add: noSharing_iff)
  show ?case
  proof (cases "sent_emptyP (m_sentPacketsP c)")
    case True
    then have "removeStaleP minTime minSeqNum st = Some st"
      by (subst removeStaleP.simps) (simp add: st)
    with less.prems show ?thesis by simp
  next
    case False
    obtain s where s: "oldestSeqNumP (m_sentPacketsP c) h = Some s" "containsP s (m_sentPacketsP c) h"
      using oldestSeqNumP_contained [OF wf False] by blast
    obtain t where t: "oldestTimeP (m_sentPacketsP c) = Some t"
      using oldestTimeP_some [OF False] by blast
    show ?thesis
    proof (cases "moreRecentSeqNum minSeqNum s \<or> minTime > t")
      case stale: False
      with False s t have "removeStaleP minTime minSeqNum st = Some st"
        by (subst removeStaleP.simps) (simp add: st)
      with less.prems show ?thesis by simp
    next
      case stale: True
      from removeUndeliveredPacketP_inv [OF ns, of s] s(2)
      obtain c' h' io' where r: "removeUndeliveredPacketP s (c, h, io) = Some (c', h', io')"
        and ns': "noSharing (c', h', io')"
        and sub: "set (inFlight (c', h', io')) \<subseteq> set (inFlight (c, h, io))"
        and lt: "sentCostP (m_sentPacketsP c') < sentCostP (m_sentPacketsP c)"
        by blast
      from less.hyps [of "(c', h', io')"] ns' lt st
      obtain st' where l: "removeStaleP minTime minSeqNum (c', h', io') = Some st'"
        "noSharing st'" "set (inFlight st') \<subseteq> set (inFlight (c', h', io'))"
        by auto
      have "removeStaleP minTime minSeqNum st = removeStaleP minTime minSeqNum (c', h', io')"
        using False s t stale r by (subst removeStaleP.simps) (simp add: st)
      with l sub st show ?thesis by auto
    qed
  qed
qed

lemma noSharing_frame:
  assumes "m_sentPacketsP c' = m_sentPacketsP c" "postedP io' = postedP io"
  shows "noSharing (c', h, io') = noSharing (c, h, io)"
    and "inFlight (c', h, io') = inFlight (c, h, io)"
  using assms by (simp_all add: noSharing_iff inFlight_def postedObjects_def)

lemma processPeerAcksP_inv:
  assumes ns: "noSharing (c, h, io)"
  shows "\<exists>st'. processPeerAcksP peerAck (c, h, io) = Some st' \<and> noSharing st' \<and>
           set (inFlight st') \<subseteq> set (inFlight (c, h, io))"
proof -
  from forEach_confirmP_inv [OF ns, of "ackedSeqNums peerAck"]
  obtain c1 where 1: "forEachSeqNum confirmPacketDeliveryP (ackedSeqNums peerAck) (c, h, io) = Some (c1, h, io)"
    "noSharing (c1, h, io)" "set (inFlight (c1, h, io)) \<subseteq> set (inFlight (c, h, io))"
    by blast
  from removeStaleP_inv [OF 1(2), of "clockP io - 2000" "latest peerAck - 256"]
  obtain st' where 2: "removeStaleP (clockP io - 2000) (latest peerAck - 256) (c1, h, io) = Some st'"
    "noSharing st'" "set (inFlight st') \<subseteq> set (inFlight (c1, h, io))"
    by blast
  have "processPeerAcksP peerAck (c, h, io) = Some st'"
    using 1(1) 2(1) by (simp add: processPeerAcksP_def forEachAckedSeqNum_def)
  with 2 1(3) show ?thesis by auto
qed

lemma handleReceiveP_inv:
  assumes ns: "noSharing (c, h, io)"
  shows "\<exists>st'. handleReceiveP p (c, h, io) = Some st' \<and> noSharing st' \<and>
           set (inFlight st') \<subseteq> set (inFlight (c, h, io))"
proof -
  define c0 where "c0 = c \<lparr> m_recvTimeP := clockP io, m_recvCountP := m_recvCountP c + 1,
                             m_ackP := updateForSeqNum (seqNum (header p)) (m_ackP c) \<rparr>"
  have ns0: "noSharing (c0, h, io)" and if0: "inFlight (c0, h, io) = inFlight (c, h, io)"
    using ns noSharing_frame [of c0 c io io h] by (simp_all add: c0_def)
  from processPeerAcksP_inv [OF ns0, of "ack (header p)"]
  obtain c1 h1 io1 where 1: "processPeerAcksP (ack (header p)) (c0, h, io) = Some (c1, h1, io1)"
    "noSharing (c1, h1, io1)" "set (inFlight (c1, h1, io1)) \<subseteq> set (inFlight (c0, h, io))"
    by (metis prod_cases3)
  define c' where "c' = c1 \<lparr> m_recvPacketsP := snd (recv_insert (seqNum (header p)) p (m_recvPacketsP c1)) \<rparr>"
  have r: "handleReceiveP p (c, h, io) = Some (c', h1, io1)"
    using 1(1) by (simp add: handleReceiveP_def c0_def c'_def split: prod.splits)
  have "noSharing (c', h1, io1)" "inFlight (c', h1, io1) = inFlight (c1, h1, io1)"
    using 1(2) noSharing_frame [of c' c1 io1 io1 h1] by (simp_all add: c'_def)
  with r 1(3) if0 show ?thesis by auto
qed

lemma handleSendP_inv:
  assumes ns: "noSharing (c, h, io)"
  shows "\<exists>st'. handleSendP a err (c, h, io) = Some st' \<and> noSharing st' \<and>
           set (inFlight st') \<subseteq> set (inFlight (c, h, io))"
proof (cases "err = 0")
  case True
  with ns show ?thesis by (simp add: handleSendP_def)
next
  case False
  define io1 where "io1 = io \<lparr> notifiedP := notifiedP io @ [OnError (m_peerP c) err] \<rparr>"
  have ns1: "noSharing (c, h, io1)" and if1: "inFlight (c, h, io1) = inFlight (c, h, io)"
    using ns noSharing_frame [of c c io1 io h] by (simp_all add: io1_def)
  from removeUndeliveredPacketP_inv [OF ns1, of "seqNum (header (h a))"]
  obtain c' h' io' where
    "removeUndeliveredPacketP (seqNum (header (h a))) (c, h, io1) = Some (c', h', io')"
    "noSharing (c', h', io')" "set (inFlight (c', h', io')) \<subseteq> set (inFlight (c, h, io1))"
    by blast
  with False if1 show ?thesis
    by (auto simp: handleSendP_def io1_def)
qed

lemma stepP_inv:
  assumes ns: "noSharing (c, h, io)"
    and fresh: "set (submittedObjects [e]) \<inter> set (inFlight (c, h, io)) = {}"
  shows "\<exists>st'. stepP e (c, h, io) = Some st' \<and> noSharing st' \<and>
           set (inFlight st') \<subseteq> set (inFlight (c, h, io)) \<union> set (submittedObjects [e])"
proof (cases e)
  case (AppSendP a k)
  have fa: "a \<notin> set (slotObjects (m_sentPacketsP c))" "a \<notin> set (postedObjects io)"
    using fresh AppSendP by (simp_all add: inFlight_set)
  define io1 where "io1 = io \<lparr> postedP := postedP io @ [(m_peerP c, a, k)] \<rparr>"
  have po: "postedObjects io1 = postedObjects io @ [a]"
    by (simp add: postedObjects_def io1_def)
  have "stepP e (c, h, io) = Some (c, h, io1)"
    using AppSendP by (simp add: asyncSendP_def io1_def)
  moreover have "noSharing (c, h, io1)"
    using ns fa unfolding noSharing_iff po by auto
  moreover have "set (inFlight (c, h, io1)) \<subseteq> set (inFlight (c, h, io)) \<union> set (submittedObjects [e])"
    unfolding inFlight_set po using AppSendP by auto
  ultimately show ?thesis by blast
next
  case RunJobP
  show ?thesis
  proof (cases "postedP io")
    case Nil
    with RunJobP ns show ?thesis by simp
  next
    case (Cons job rest)
    obtain peer a k where job: "job = (peer, a, k)" by (cases job)
    define io1 where "io1 = io \<lparr> postedP := rest \<rparr>"
    have po: "postedObjects io = a # postedObjects io1"
      using Cons job by (simp add: postedObjects_def io1_def)
    have ns1: "noSharing (c, h, io1)"
      using ns unfolding noSharing_iff po by auto
    have fa: "a \<notin> set (inFlight (c, h, io1))"
      using ns unfolding noSharing_iff inFlight_set po by auto
    have sub1: "insert a (set (inFlight (c, h, io1))) \<subseteq> set (inFlight (c, h, io))"
      unfolding inFlight_set po by auto
    note d = doSendP_inv [OF ns1 fa, of k]
    have "stepP e (c, h, io) = Some (doSendP a k (c, h, io1))"
      using RunJobP Cons job by (simp add: io1_def)
    with d(1) d(2) sub1 show ?thesis by auto
  qed
next
  case (SendDoneP a err)
  from handleSendP_inv [OF ns, of a err] SendDoneP show ?thesis by auto
next
  case (ReceiveP p)
  from handleReceiveP_inv [OF ns, of p] ReceiveP show ?thesis by auto
next
  case (TickP d)
  have "noSharing (c, h, io \<lparr> clockP := clockP io + int d \<rparr>)"
    "inFlight (c, h, io \<lparr> clockP := clockP io + int d \<rparr>) = inFlight (c, h, io)"
    using ns noSharing_frame [of c c "io \<lparr> clockP := clockP io + int d \<rparr>" io h] by simp_all
  with TickP show ?thesis by simp
next
  case DispatchP
  have "noSharing (fst (dispatchReceivedPacketsP c), h, io)"
    "inFlight (fst (dispatchReceivedPacketsP c), h, io) = inFlight (c, h, io)"
    using ns noSharing_frame [of "fst (dispatchReceivedPacketsP c)" c io io h]
    by (simp_all add: dispatchReceivedPacketsP_def split: prod.splits)
  with DispatchP show ?thesis by simp
qed

lemma submittedObjects_Cons:
  "submittedObjects (e # es) = submittedObjects [e] @ submittedObjects es"
  by (cases e) simp_all

lemma runP_returns:
  assumes "noSharing st" "distinct (submittedObjects evs)"
    "set (submittedObjects evs) \<inter> set (inFlight st) = {}"
  shows "\<exists>st'. runP evs st = Some st' \<and> noSharing st'"
  using assms
proof (induction evs arbitrary: st)
  case Nil
  then show ?case by simp
next
  case (Cons e evs)
  obtain c h io where st: "st = (c, h, io)" by (cases st)
  have d: "distinct (submittedObjects [e] @ submittedObjects evs)"
    and j: "set (submittedObjects [e] @ submittedObjects evs) \<inter> set (inFlight st) = {}"
    using Cons.prems(2,3) submittedObjects_Cons [of e evs] by simp_all
  have fresh: "set (submittedObjects [e]) \<inter> set (inFlight (c, h, io)) = {}"
    using j st by auto
  from stepP_inv [OF _ fresh] Cons.prems(1) st
  obtain st1 where 1: "stepP e st = Some st1" "noSharing st1"
    "set (inFlight st1) \<subseteq> set (inFlight st) \<union> set (submittedObjects [e])"
    by auto
  have "distinct (submittedObjects evs)" using d by simp
  moreover have "set (submittedObjects evs) \<inter> set (inFlight st1) = {}"
    using d j 1(3) by auto
  ultimately obtain st' where "runP evs st1 = Some st'" "noSharing st'"
    using Cons.IH [OF 1(2)] by blast
  with 1(1) show ?case by simp
qed

lemma noSharing_new: "noSharing (newConnectionP peer, h, idleIOP)"
  by (simp add: noSharing_iff wfSentP_iff newConnectionP_def newSentBufferP_def idleIOP_def
      postedObjects_def slotObjects_def emptyExtP_def)

lemma inFlight_new: "inFlight (newConnectionP peer, h, idleIOP) = []"
  by (simp add: inFlight_def newConnectionP_def newSentBufferP_def idleIOP_def
      postedObjects_def slotObjects_def emptyExtP_def)

section \<open>The resends of one packet object\<close>

text \<open>
  Claim C3. Take any state of a connection whose sent buffer has its 256 slots, any run
  of its handlers from there (buffer-pressure eviction in \<open>doSend\<close>, send failures in
  \<open>handleSend\<close>, loss detection in \<open>removeUndeliveredPacket\<close>, sends of other
  packets, of equal content or not, in any order), and any packet object \<open>a\<close>.

  If no packet object is shared in that state and the application submits only objects
  that are not in flight, each once, the run returns. (When one object is in two entries
  the loop of \<open>processPeerAcks\<close> need not end.)

  In every state a run reaches, the transmissions of \<open>a\<close> and the resend jobs posted
  for it are at most: its transmissions before the run, the resend budgets of the entries
  that hold it, the budgets of the jobs posted for it (a job counts its budget and its
  own send), and the same for every later submission by the application. In particular,
  for a packet stored in one entry with resend budget k, in no other entry and in no
  posted job, and not submitted again, the resends the run triggers (the new
  transmissions and the resend jobs still posted) are at most k: every resend path
  passes \<open>resendLimit - 1\<close> and none resends at budget 0.
\<close>

theorem resend_attempts_bounded:
  assumes len: "length (slotsP (m_sentPacketsP c)) = sentCapacity"
  shows "(noSharing (c, h, io) \<and> distinct (submittedObjects evs) \<and>
          set (submittedObjects evs) \<inter> set (inFlight (c, h, io)) = {} \<longrightarrow>
            (\<exists>st'. runP evs (c, h, io) = Some st')) \<and>
         (\<forall>c' h' io'. runP evs (c, h, io) = Some (c', h', io') \<longrightarrow>
            transmissionsP a io' + pendingResendsP a io' \<le>
              transmissionsP a io + budgetInBufferP a (m_sentPacketsP c) + budgetPostedP a io +
              submittedP a evs \<and>
            (i < sentCapacity \<and> packetP (slotsP (m_sentPacketsP c) ! i) = Some a \<and>
             (\<forall>j < sentCapacity. j \<noteq> i \<longrightarrow> packetP (slotsP (m_sentPacketsP c) ! j) \<noteq> Some a) \<and>
             (\<forall>job \<in> set (postedP io). fst (snd job) \<noteq> a) \<and>
             (\<forall>r. AppSendP a r \<notin> set evs) \<longrightarrow>
             transmissionsP a io' + pendingResendsP a io' \<le>
               transmissionsP a io + unat (resendLimitP (slotsP (m_sentPacketsP c) ! i))))"
proof (intro conjI impI allI)
  assume "noSharing (c, h, io) \<and> distinct (submittedObjects evs) \<and>
          set (submittedObjects evs) \<inter> set (inFlight (c, h, io)) = {}"
  then show "\<exists>st'. runP evs (c, h, io) = Some st'"
    using runP_returns [of "(c, h, io)" evs] by blast
next
  fix c' h' io'
  assume run: "runP evs (c, h, io) = Some (c', h', io')"
  have "resendPotentialP a (c', h', io') \<le> resendPotentialP a (c, h, io) + submittedP a evs"
    using runP_potential [OF len run] by simp
  then have "transmissionsP a io' + budgetPostedP a io' \<le>
           transmissionsP a io + budgetInBufferP a (m_sentPacketsP c) + budgetPostedP a io +
           submittedP a evs"
    by (simp add: resendPotentialP_def)
  then show g: "transmissionsP a io' + pendingResendsP a io' \<le>
           transmissionsP a io + budgetInBufferP a (m_sentPacketsP c) + budgetPostedP a io +
           submittedP a evs"
    using pendingResendsP_le [of a io'] by linarith
  assume "i < sentCapacity \<and> packetP (slotsP (m_sentPacketsP c) ! i) = Some a \<and>
          (\<forall>j < sentCapacity. j \<noteq> i \<longrightarrow> packetP (slotsP (m_sentPacketsP c) ! j) \<noteq> Some a) \<and>
          (\<forall>job \<in> set (postedP io). fst (snd job) \<noteq> a) \<and>
          (\<forall>r. AppSendP a r \<notin> set evs)"
  then have i: "i < sentCapacity" "packetP (slotsP (m_sentPacketsP c) ! i) = Some a"
    and others: "\<forall>j < sentCapacity. j \<noteq> i \<longrightarrow> packetP (slotsP (m_sentPacketsP c) ! j) \<noteq> Some a"
    and noJob: "\<forall>job \<in> set (postedP io). fst (snd job) \<noteq> a"
    and noSubmit: "\<forall>r. AppSendP a r \<notin> set evs"
    by blast+
  show "transmissionsP a io' + pendingResendsP a io' \<le>
          transmissionsP a io + unat (resendLimitP (slotsP (m_sentPacketsP c) ! i))"
    using g budgetInBufferP_single [OF len i others] budgetPostedP_none [OF noJob]
      submittedP_none [OF noSubmit]
    by simp
qed

lemma sentTwins_slots:
  "slotsP (m_sentPacketsP (fst sentTwins)) =
     (replicate sentCapacity emptyExtP)
       [0 := \<lparr> packetP = Some 1, resendLimitP = 2, timestampP = 0 \<rparr>,
        1 := \<lparr> packetP = Some 2, resendLimitP = 1, timestampP = 0 \<rparr>]"
  "postedP (snd (snd sentTwins)) = []"
  "map fst (datagramsP (snd (snd sentTwins))) = [1, 2]"
  by (simp_all add: sentTwins_def doSendP_def storeP_eq newConnectionP_def newSentBufferP_def
      idleIOP_def evictedResendP_def emptyExtP_def sentCapacity_def)

lemma lossyRunP_result:
  "map_option (\<lambda>st. (map fst (datagramsP (snd (snd st))), postedP (snd (snd st))))
     (runP lossyRunP sentTwins) = Some ([1, 2, 1, 2, 1], [])"
  by code_simp

lemma transmissionsP_map:
  "transmissionsP a io = length (filter (\<lambda>x. x = a) (map fst (datagramsP io)))"
  by (simp add: transmissionsP_def filter_map comp_def)

lemma noSharing_sentTwins: "noSharing sentTwins"
proof -
  obtain c1 h1 io1 where 1: "doSendP 1 2 (newConnectionP 7, twins, idleIOP) = (c1, h1, io1)"
    by (rule prod_cases3)
  have n1: "noSharing (c1, h1, io1)" and f1: "set (inFlight (c1, h1, io1)) \<subseteq> {1}"
    using doSendP_inv(1,2) [OF noSharing_new, of 1 7 twins 2] 1
    by (simp_all add: inFlight_new)
  have "2 \<notin> set (inFlight (c1, h1, io1))" using f1 by auto
  then show ?thesis
    unfolding sentTwins_def 1 by (rule doSendP_inv(1) [OF n1])
qed

text \<open>
  Claim C3 on the two objects of equal content: the run returns; object 1, stored with
  budget 2, is transmitted three times in all (two resends), object 2, stored with
  budget 1, twice.
\<close>

theorem resend_attempts_bounded_witness:
  "twins 1 = twins 2 \<and>
   noSharing sentTwins \<and> submittedObjects lossyRunP = [] \<and>
   length (slotsP (m_sentPacketsP (fst sentTwins))) = sentCapacity \<and>
   slotsP (m_sentPacketsP (fst sentTwins)) ! 0 = \<lparr> packetP = Some 1, resendLimitP = 2, timestampP = 0 \<rparr> \<and>
   slotsP (m_sentPacketsP (fst sentTwins)) ! 1 = \<lparr> packetP = Some 2, resendLimitP = 1, timestampP = 0 \<rparr> \<and>
   postedP (snd (snd sentTwins)) = [] \<and>
   transmissionsP 1 (snd (snd sentTwins)) = 1 \<and>
   (\<exists>c' h' io'. runP lossyRunP sentTwins = Some (c', h', io') \<and>
      map fst (datagramsP io') = [1, 2, 1, 2, 1] \<and>
      transmissionsP 1 io' = 3 \<and> transmissionsP 2 io' = 2 \<and>
      transmissionsP 1 io' + pendingResendsP 1 io' \<le> transmissionsP 1 (snd (snd sentTwins)) + unat (2 :: size_t))"
proof -
  obtain c h io where st: "sentTwins = (c, h, io)" by (cases sentTwins)
  have slots: "slotsP (m_sentPacketsP c) =
     (replicate sentCapacity emptyExtP)
       [0 := \<lparr> packetP = Some 1, resendLimitP = 2, timestampP = 0 \<rparr>,
        1 := \<lparr> packetP = Some 2, resendLimitP = 1, timestampP = 0 \<rparr>]"
    and posted: "postedP io = []" and sent: "map fst (datagramsP io) = [1, 2]"
    using sentTwins_slots by (simp_all add: st)
  have len: "length (slotsP (m_sentPacketsP c)) = sentCapacity"
    by (simp add: slots)
  have s0: "slotsP (m_sentPacketsP c) ! 0 = \<lparr> packetP = Some 1, resendLimitP = 2, timestampP = 0 \<rparr>"
    and s1: "slotsP (m_sentPacketsP c) ! 1 = \<lparr> packetP = Some 2, resendLimitP = 1, timestampP = 0 \<rparr>"
    by (simp_all add: slots sentCapacity_def)
  have others: "\<forall>j < sentCapacity. j \<noteq> 0 \<longrightarrow> packetP (slotsP (m_sentPacketsP c) ! j) \<noteq> Some 1"
    by (simp add: slots nth_list_update emptyExtP_def)
  have noJob: "\<forall>job \<in> set (postedP io). fst (snd job) \<noteq> 1"
    by (simp add: posted)
  have noSubmit: "\<forall>r. AppSendP 1 r \<notin> set lossyRunP"
    by (simp add: lossyRunP_def)
  have ns: "noSharing (c, h, io)"
    using noSharing_sentTwins by (simp add: st)
  have so: "submittedObjects lossyRunP = []"
    by (simp add: lossyRunP_def)
  note bound = resend_attempts_bounded [OF len, of h io lossyRunP 1 0]
  from bound ns so obtain st' where "runP lossyRunP (c, h, io) = Some st'"
    by auto
  then obtain c' h' io' where run: "runP lossyRunP (c, h, io) = Some (c', h', io')"
    by (cases st') auto
  from lossyRunP_result run have d: "map fst (datagramsP io') = [1, 2, 1, 2, 1]"
    by (simp add: st)
  have t0: "transmissionsP 1 io = 1"
    by (simp add: transmissionsP_map sent)
  have t1: "transmissionsP 1 io' = 3" and t2: "transmissionsP 2 io' = 2"
    by (simp_all add: transmissionsP_map d)
  have b: "transmissionsP 1 io' + pendingResendsP 1 io' \<le> transmissionsP 1 io + unat (2 :: size_t)"
    using bound run s0 others noJob noSubmit
    by (simp add: sentCapacity_def)
  have tw: "twins 1 = twins 2" by (simp add: twins_def)
  show ?thesis
    unfolding st fst_conv snd_conv
    by (intro conjI exI [of _ c'] exI [of _ h'] exI [of _ io'])
       (rule tw ns so len s0 s1 posted t0 run d t1 t2 b)+
qed

section \<open>Sending on a dead connection\<close>

text \<open>
  Claim C4, as stated, fails: \<open>asyncSend\<close> never looks at \<open>isDead\<close>. On a connection
  marked dead, one \<open>asyncSend\<close> of packet object 1 followed by the executor running the
  posted job stores the object in the sent buffer, hands one datagram with its payload to
  the socket for the peer and counts one sent packet.
\<close>

theorem dead_connection_still_sends:
  "m_isDeadP (markDeadP True (newConnectionP 7)) \<and>
   map_option (m_sentCountP \<circ> fst)
     (runP [AppSendP 1 0, RunJobP] (markDeadP True (newConnectionP 7), twins, idleIOP)) = Some 1 \<and>
   map_option (map (\<lambda>d. (fst d, payload (fst (snd d)), snd (snd d))) \<circ> datagramsP \<circ> snd \<circ> snd)
     (runP [AppSendP 1 0, RunJobP] (markDeadP True (newConnectionP 7), twins, idleIOP)) = Some [(1, [1], 7)] \<and>
   map_option (slotObjects \<circ> m_sentPacketsP \<circ> fst)
     (runP [AppSendP 1 0, RunJobP] (markDeadP True (newConnectionP 7), twins, idleIOP)) = Some [1]"
  by code_simp

text \<open>
  Claim C4, amended. For every packet and every resend limit, on a dead connection as on
  a live one, \<open>asyncSend\<close> itself leaves the connection unchanged and transmits
  nothing, but appends the job \<open>doSend(packet, resendLimit)\<close> to the executor's queue;
  when the executor runs the job, in whatever state the connection then is and whatever
  jobs are queued behind it, the packet object is stamped with the next seqnum and the
  local ack, its pointer is stored in the slot of that seqnum with the resend limit and
  the current time (and, the buffer having its 256 slots, the sent buffer then contains
  that seqnum), the packet is handed to the socket for the peer of the connection, and
  \<open>sentCount\<close> grows by one; a displaced entry with budget left is posted for its
  resend. \<open>isDead\<close> is neither read nor changed.
\<close>

theorem asyncSend_ignores_isDead:
  "asyncSendP a k (c, h, io) = (c, h, io \<lparr> postedP := postedP io @ [(m_peerP c, a, k)] \<rparr>) \<and>
   (let s = nextSeqNumP (m_sentPacketsP c);
        i = unat s mod sentCapacity;
        h' = h (a := (h a) \<lparr> header := (header (h a)) \<lparr> seqNum := s, ack := m_ackP c \<rparr> \<rparr>);
        buf = \<lparr> slotsP = (slotsP (m_sentPacketsP c))
                          [i := \<lparr> packetP = Some a, resendLimitP = k, timestampP = clockP io \<rparr>],
                nextSeqNumP = s + 1 \<rparr>
    in stepP RunJobP (c, h, io \<lparr> postedP := (peer, a, k) # rest \<rparr>) =
         Some (c \<lparr> m_sentPacketsP := buf, m_sentCountP := m_sentCountP c + 1 \<rparr>,
               h',
               io \<lparr> postedP := rest @ evictedResendP (m_peerP c) (slotsP (m_sentPacketsP c) ! i),
                    datagramsP := datagramsP io @ [(a, h' a, m_peerP c)] \<rparr>) \<and>
       (length (slotsP (m_sentPacketsP c)) = sentCapacity \<longrightarrow> containsP s buf h'))"
proof -
  define s where "s = nextSeqNumP (m_sentPacketsP c)"
  define i where "i = unat s mod sentCapacity"
  define h' where "h' = h (a := (h a) \<lparr> header := (header (h a)) \<lparr> seqNum := s, ack := m_ackP c \<rparr> \<rparr>)"
  define buf where "buf = \<lparr> slotsP = (slotsP (m_sentPacketsP c))
                          [i := \<lparr> packetP = Some a, resendLimitP = k, timestampP = clockP io \<rparr>],
                nextSeqNumP = s + 1 \<rparr>"
  have st: "storeP (clockP (io \<lparr> postedP := rest \<rparr>)) a k (m_ackP c) (m_sentPacketsP c) h =
              (slotsP (m_sentPacketsP c) ! i, buf, h')"
    by (simp add: storeP_def Let_def s_def i_def h'_def buf_def)
  have 1: "asyncSendP a k (c, h, io) = (c, h, io \<lparr> postedP := postedP io @ [(m_peerP c, a, k)] \<rparr>)"
    by (simp add: asyncSendP_def)
  have 2: "stepP RunJobP (c, h, io \<lparr> postedP := (peer, a, k) # rest \<rparr>) =
         Some (c \<lparr> m_sentPacketsP := buf, m_sentCountP := m_sentCountP c + 1 \<rparr>,
               h',
               io \<lparr> postedP := rest @ evictedResendP (m_peerP c) (slotsP (m_sentPacketsP c) ! i),
                    datagramsP := datagramsP io @ [(a, h' a, m_peerP c)] \<rparr>)"
    using doSendP_eq [OF st] by simp
  have 3: "containsP s buf h'" if "length (slotsP (m_sentPacketsP c)) = sentCapacity"
  proof -
    have "i < length (slotsP (m_sentPacketsP c))"
      using that by (simp add: i_def sentCapacity_def)
    then show ?thesis
      by (simp add: containsP_def buf_def i_def [symmetric] h'_def)
  qed
  from 1 2 3 show ?thesis
    unfolding Let_def s_def [symmetric] i_def [symmetric] h'_def [symmetric] buf_def [symmetric]
    by blast
qed

theorem asyncSend_ignores_isDead_witness:
  "m_isDeadP (markDeadP True (newConnectionP 7)) \<and>
   length (slotsP (m_sentPacketsP (markDeadP True (newConnectionP 7)))) = sentCapacity \<and>
   asyncSendP 1 2 (markDeadP True (newConnectionP 7), twins, idleIOP) =
     (markDeadP True (newConnectionP 7), twins, idleIOP \<lparr> postedP := [(7, 1, 2)] \<rparr>) \<and>
   (\<exists>c' h' io'. stepP RunJobP (markDeadP True (newConnectionP 7), twins, idleIOP \<lparr> postedP := [(7, 1, 2)] \<rparr>) =
                Some (c', h', io') \<and>
      containsP 0 (m_sentPacketsP c') h' \<and>
      slotsP (m_sentPacketsP c') ! 0 = \<lparr> packetP = Some 1, resendLimitP = 2, timestampP = 0 \<rparr> \<and>
      datagramsP io' = [(1, samplePacket 0 1, 7)] \<and> postedP io' = [] \<and>
      m_sentCountP c' = 1 \<and> m_isDeadP c')"
  using asyncSend_ignores_isDead [where a = 1 and k = 2
      and c = "markDeadP True (newConnectionP 7)" and h = twins and io = idleIOP and peer = 7 and rest = "[]"]
  by (simp add: Let_def idleIOP_def markDeadP_def newConnectionP_def newSentBufferP_def samplePacket_def
      evictedResendP_def emptyExtP_def sentCapacity_def twins_def)

section \<open>Receiving and dispatching\<close>































lemma receiveAll_Cons:
  "receiveAll buf (p # ps) = receiveAll (snd (recv_insert (seqNum (header p)) p buf)) ps"
  by (simp add: receiveAll_def)








lemma recv_insert_code [code]:
  "recv_insert s p buf =
     (let i = nat (uint s mod 256)
      in (received buf ! i, buf \<lparr> received := (received buf)[i := Some p] \<rparr>))"
proof -
  have "unat s mod recvCapacity = nat (uint s mod 256)"
    by (simp add: recvCapacity_def nat_mod_distrib)
  then show ?thesis
    by (simp add: recv_insert_def Let_def)
qed











end
